theory Spec2Isabelle
  imports Main "HOL-Library.Multiset"
begin

section \<open>Capture cells\<close>

text \<open>
  Errors are values. \<open>ValueError\<close> is what Python raises when a tuple assignment gets the
  wrong number of values (and what the tree library raises for an ill-formed \<open>where\<close>);
  \<open>IndexError\<close> is an out-of-range subscript; \<open>LookupError\<close> is a read of a location that
  the model does not have; \<open>Raised e\<close> is an error \<open>e\<close> raised by a layer.
\<close>

datatype 'e error = ValueError | IndexError | LookupError | Raised 'e

text \<open>
  \<^verbatim>\<open>class AuxData\<close>: one slot, \<open>None\<close> after \<^verbatim>\<open>__init__\<close>. The objects live in a heap, a
  list of cells; the address of a cell is its index.
\<close>

record 'v AuxData =
  data :: "'v option"

type_synonym 'v heap = "'v AuxData list"

definition AuxData_init :: "'v AuxData" where
  "AuxData_init = \<lparr>data = None\<rparr>"

definition update :: "'v AuxData \<Rightarrow> 'v \<Rightarrow> 'v AuxData" where
  "update aux x = aux\<lparr>data := Some x\<rparr>"

section \<open>Models\<close>

text \<open>
  Modelled from the spec: the models themselves belong to the model library, not to this
  repository. The specification calls a model a tree of sub-components, each called with
  an input value and an optional randomness key and returning one output value. The
  forward pass of a composite is taken as a program over its sub-components: it returns,
  raises, or calls sub-component \<open>i\<close> on an input and a key and goes on with the
  result. A composite uses its sub-components by calling them and in no other way, and
  it does not catch what they raise.
\<close>

datatype ('v, 'k, 'e) prog =
    Return 'v
  | Raise 'e
  | Invoke nat 'v "'k option" "'v \<Rightarrow> ('v, 'k, 'e) prog"

text \<open>
  A module is a primitive layer (a function of the input and the optional key, which may
  raise), the library's \<^verbatim>\<open>nn.Sequential\<close>, any other composite, or an instance of the
  \<^verbatim>\<open>IntermediateWrapper\<close> class of one call of \<^verbatim>\<open>_make_intermediate_layer_wrapper\<close>: the
  class closes over its \<^verbatim>\<open>aux\<close>, here the address of that cell, and has the field
  \<^verbatim>\<open>layer\<close>.
\<close>

datatype ('v, 'k, 'e) module =
    Layer "'v \<Rightarrow> 'k option \<Rightarrow> 'e + 'v"
  | Sequential "('v, 'k, 'e) module list"
  | Composite "('v, 'k, 'e) module list" "'v \<Rightarrow> 'k option \<Rightarrow> ('v, 'k, 'e) prog"
  | IntermediateWrapper nat "('v, 'k, 'e) module"

type_synonym ('v, 'e) outcome = "('e error + 'v) \<times> 'v heap"

type_synonym ('v, 'k, 'e) callable = "'v \<Rightarrow> 'k option \<Rightarrow> 'v heap \<Rightarrow> ('v, 'e) outcome"

text \<open>
  Modelled from the spec: \<^verbatim>\<open>nn.Sequential\<close> is the library's flat pipeline, a simple
  ordered sequence of sub-components (Scenario A: the output of \<open>[L0, L1, L2]\<close> on \<open>x\<close>
  is \<open>L2(L1(L0(x)))\<close>). Its call is the loop over \<^verbatim>\<open>zip(self.layers, keys)\<close> with
  \<^verbatim>\<open>x = layer(x, key=key)\<close>.
\<close>

fun run_seq :: "(('v, 'k, 'e) callable \<times> 'k option) list \<Rightarrow> 'v \<Rightarrow> 'v heap \<Rightarrow> ('v, 'e) outcome" where
  "run_seq [] x h = (Inr x, h)"
| "run_seq ((f, k) # rest) x h =
     (case f x k h of
        (Inl e, h') \<Rightarrow> (Inl e, h')
      | (Inr y, h') \<Rightarrow> run_seq rest y h')"

text \<open>
  \<^verbatim>\<open>keys = [None] * len(self.layers)\<close> without a key, \<^verbatim>\<open>jrandom.split(key, len(self.layers))\<close>
  with one. The splitting function belongs to the random-number library and is a
  parameter.
\<close>

definition split_keys :: "('k \<Rightarrow> nat \<Rightarrow> 'k list) \<Rightarrow> 'k option \<Rightarrow> nat \<Rightarrow> 'k option list" where
  "split_keys split key n =
     (case key of None \<Rightarrow> replicate n None | Some k \<Rightarrow> map Some (split k n))"

primrec run_prog :: "('v, 'k, 'e) callable list \<Rightarrow> ('v, 'k, 'e) prog \<Rightarrow> 'v heap \<Rightarrow> ('v, 'e) outcome" where
  "run_prog fs (Return v) h = (Inr v, h)"
| "run_prog fs (Raise e) h = (Inl (Raised e), h)"
| "run_prog fs (Invoke i a k cont) h =
     (if i < length fs then
        (case (fs ! i) a k h of
           (Inl e, h') \<Rightarrow> (Inl e, h')
         | (Inr v, h') \<Rightarrow> run_prog fs (cont v) h')
      else (Inl IndexError, h))"

text \<open>
  Calling a module. The last equation is \<^verbatim>\<open>IntermediateWrapper.__call__\<close>:
  \<^verbatim>\<open>out = self.layer(x, key=key); aux.update(out); return out\<close>.
\<close>

fun call :: "('k \<Rightarrow> nat \<Rightarrow> 'k list) \<Rightarrow> ('v, 'k, 'e) module \<Rightarrow> ('v, 'k, 'e) callable" where
  "call split (Layer f) x key h =
     (case f x key of Inl e \<Rightarrow> (Inl (Raised e), h) | Inr y \<Rightarrow> (Inr y, h))"
| "call split (Sequential layers) x key h =
     run_seq (zip (map (call split) layers) (split_keys split key (length layers))) x h"
| "call split (Composite subs forward) x key h =
     run_prog (map (call split) subs) (forward x key) h"
| "call split (IntermediateWrapper aux layer) x key h =
     (case call split layer x key h of
        (Inl e, h') \<Rightarrow> (Inl e, h')
      | (Inr out, h') \<Rightarrow> (Inr out, h'[aux := update (h' ! aux) out]))"

section \<open>The tree library\<close>

text \<open>
  A location in a model is the list of sub-component positions leading to it from the
  root: \<^verbatim>\<open>m.layers[i]\<close> of a \<^verbatim>\<open>Sequential\<close>, the \<open>i\<close>-th sub-component of a composite,
  the field \<^verbatim>\<open>layer\<close> (position 0) of a wrapper.
\<close>

fun children :: "('v, 'k, 'e) module \<Rightarrow> ('v, 'k, 'e) module list" where
  "children (Layer f) = []"
| "children (Sequential layers) = layers"
| "children (Composite subs forward) = subs"
| "children (IntermediateWrapper aux layer) = [layer]"

fun with_children :: "('v, 'k, 'e) module \<Rightarrow> ('v, 'k, 'e) module list \<Rightarrow> ('v, 'k, 'e) module" where
  "with_children (Layer f) cs = Layer f"
| "with_children (Sequential layers) cs = Sequential cs"
| "with_children (Composite subs forward) cs = Composite cs forward"
| "with_children (IntermediateWrapper aux layer) cs = IntermediateWrapper aux (hd cs)"

fun subtree :: "('v, 'k, 'e) module \<Rightarrow> nat list \<Rightarrow> ('v, 'k, 'e) module option" where
  "subtree m [] = Some m"
| "subtree m (i # p) =
     (if i < length (children m) then subtree (children m ! i) p else None)"

fun replace_at :: "('v, 'k, 'e) module \<Rightarrow> nat list \<Rightarrow> ('v, 'k, 'e) module \<Rightarrow> 'e error + ('v, 'k, 'e) module" where
  "replace_at m [] r = Inr r"
| "replace_at m (i # p) r =
     (if i < length (children m) then
        (case replace_at (children m ! i) p r of
           Inl e \<Rightarrow> Inl e
         | Inr c \<Rightarrow> Inr (with_children m ((children m)[i := c])))
      else Inl LookupError)"

fun is_prefix :: "nat list \<Rightarrow> nat list \<Rightarrow> bool" where
  "is_prefix [] q = True"
| "is_prefix (i # p) [] = False"
| "is_prefix (i # p) (j # q) = (i = j \<and> is_prefix p q)"

definition overlap :: "nat list \<Rightarrow> nat list \<Rightarrow> bool" where
  "overlap p q = (is_prefix p q \<or> is_prefix q p)"

fun separate :: "nat list list \<Rightarrow> bool" where
  "separate [] = True"
| "separate (p # ps) = ((\<forall>q \<in> set ps. \<not> overlap p q) \<and> separate ps)"

fun replace_all :: "('v, 'k, 'e) module \<Rightarrow> (nat list \<times> ('v, 'k, 'e) module) list \<Rightarrow> 'e error + ('v, 'k, 'e) module" where
  "replace_all m [] = Inr m"
| "replace_all m ((p, r) # rest) =
     (case replace_at m p r of
        Inl e \<Rightarrow> Inl e
      | Inr m' \<Rightarrow> replace_all m' rest)"

text \<open>
  Modelled from the spec: \<^verbatim>\<open>eqx.tree_at(where, pytree, replace)\<close> belongs to the tree
  library, which is not part of this repository. Section 6 of the specification gives its
  contract: given a model, the locations and a same-length ordered list of replacements,
  it produces a new model with those locations substituted and everything else
  unchanged. The substitutions are made at once, so the locations must not lie inside
  one another; the library rejects a \<^verbatim>\<open>where\<close> that does not identify each element
  uniquely with a \<^verbatim>\<open>ValueError\<close>.
\<close>

definition tree_at :: "nat list list \<Rightarrow> ('v, 'k, 'e) module \<Rightarrow> ('v, 'k, 'e) module list \<Rightarrow> 'e error + ('v, 'k, 'e) module" where
  "tree_at where_locs pytree replace =
     (if length where_locs \<noteq> length replace \<or> \<not> separate where_locs then Inl ValueError
      else replace_all pytree (zip where_locs replace))"

section \<open>Construction\<close>

text \<open>
  The selector names its targets either by position (an integer, for the positional
  branch) or by location. Applying it to the model reads the targets: a position is
  returned as it is, a location yields the sub-component found there, and reading a
  location that the model does not have raises inside the selector.
\<close>

datatype target = Position int | Location "nat list"

datatype ('v, 'k, 'e) target_layer = Index int | Node "nat list" "('v, 'k, 'e) module"

fun read_targets :: "('v, 'k, 'e) module \<Rightarrow> target list \<Rightarrow> 'e error + ('v, 'k, 'e) target_layer list" where
  "read_targets m [] = Inr []"
| "read_targets m (Position i # ts) =
     (case read_targets m ts of Inl e \<Rightarrow> Inl e | Inr ls \<Rightarrow> Inr (Index i # ls))"
| "read_targets m (Location p # ts) =
     (case subtree m p of
        None \<Rightarrow> Inl LookupError
      | Some t \<Rightarrow> (case read_targets m ts of Inl e \<Rightarrow> Inl e | Inr ls \<Rightarrow> Inr (Node p t # ls)))"

text \<open>
  \<^verbatim>\<open>_make_intermediate_layer_wrapper\<close>: a new cell, and the class that closes over it.
  The class is its constructor, a function from the wrapped layer to the instance.
\<close>

definition make_intermediate_layer_wrapper ::
  "'v heap \<Rightarrow> (nat \<times> (('v, 'k, 'e) module \<Rightarrow> ('v, 'k, 'e) module)) \<times> 'v heap" where
  "make_intermediate_layer_wrapper h =
     ((length h, IntermediateWrapper (length h)), h @ [AuxData_init])"

text \<open>\<^verbatim>\<open>[_make_intermediate_layer_wrapper() for _ in range(n)]\<close>\<close>

fun make_pairs :: "nat \<Rightarrow> 'v heap \<Rightarrow> (nat \<times> (('v, 'k, 'e) module \<Rightarrow> ('v, 'k, 'e) module)) list \<times> 'v heap" where
  "make_pairs 0 h = ([], h)"
| "make_pairs (Suc n) h =
     (case make_intermediate_layer_wrapper h of
        (pair, h1) \<Rightarrow> (case make_pairs n h1 of (pairs, h2) \<Rightarrow> (pair # pairs, h2)))"

text \<open>
  \<^verbatim>\<open>auxs, wrappers = zip(*pairs)\<close>: \<^verbatim>\<open>zip\<close> of one or more pairs yields two tuples, the
  first components and the second components; \<^verbatim>\<open>zip()\<close> of no argument yields nothing,
  and the assignment to two names raises \<^verbatim>\<open>ValueError\<close>.
\<close>

definition unpack_zip :: "('a \<times> 'b) list \<Rightarrow> 'e error + ('a list \<times> 'b list)" where
  "unpack_zip pairs =
     (if pairs = [] then Inl ValueError else Inr (map fst pairs, map snd pairs))"

text \<open>
  The positional branch: the loop over \<^verbatim>\<open>enumerate(model.layers)\<close>, with the state
  \<^verbatim>\<open>new_modules, updated_count\<close>.
\<close>

fun sequential_loop ::
  "('v, 'k, 'e) target_layer list \<Rightarrow> (('v, 'k, 'e) module \<Rightarrow> ('v, 'k, 'e) module) list \<Rightarrow>
   (nat \<times> ('v, 'k, 'e) module) list \<Rightarrow> ('v, 'k, 'e) module list \<Rightarrow> nat \<Rightarrow>
   'e error + ('v, 'k, 'e) module list" where
  "sequential_loop target_layers wrappers [] new_modules updated_count = Inr new_modules"
| "sequential_loop target_layers wrappers ((idx, md) # rest) new_modules updated_count =
     (if Index (int idx) \<in> set target_layers then
        (if updated_count < length wrappers then
           sequential_loop target_layers wrappers rest
             (new_modules @ [(wrappers ! updated_count) md]) (updated_count + 1)
         else Inl IndexError)
      else sequential_loop target_layers wrappers rest (new_modules @ [md]) updated_count)"

definition sequential_branch ::
  "('v, 'k, 'e) module list \<Rightarrow> ('v, 'k, 'e) target_layer list \<Rightarrow>
   (('v, 'k, 'e) module \<Rightarrow> ('v, 'k, 'e) module) list \<Rightarrow> 'e error + ('v, 'k, 'e) module" where
  "sequential_branch layers target_layers wrappers =
     (case sequential_loop target_layers wrappers (zip [0..<length layers] layers) [] 0 of
        Inl e \<Rightarrow> Inl e
      | Inr new_modules \<Rightarrow> Inr (Sequential new_modules))"

text \<open>
  The general branch: \<^verbatim>\<open>eqx.tree_at\<close> with the selector as \<^verbatim>\<open>where\<close> and the
  replacements \<^verbatim>\<open>[wrapper(target_layer) for (wrapper, target_layer) in zip(wrappers, target_layers)]\<close>.
  A \<^verbatim>\<open>where\<close> that returns an integer does not name a node of the tree.
\<close>

fun node_location :: "('v, 'k, 'e) target_layer \<Rightarrow> nat list option" where
  "node_location (Index i) = None"
| "node_location (Node p t) = Some p"

fun wrap_target ::
  "(('v, 'k, 'e) module \<Rightarrow> ('v, 'k, 'e) module) \<times> ('v, 'k, 'e) target_layer \<Rightarrow> ('v, 'k, 'e) module option" where
  "wrap_target (wrapper, Index i) = None"
| "wrap_target (wrapper, Node p t) = Some (wrapper t)"

definition tree_at_branch ::
  "('v, 'k, 'e) module \<Rightarrow> ('v, 'k, 'e) target_layer list \<Rightarrow>
   (('v, 'k, 'e) module \<Rightarrow> ('v, 'k, 'e) module) list \<Rightarrow> 'e error + ('v, 'k, 'e) module" where
  "tree_at_branch pytree target_layers wrappers =
     (case (those (map node_location target_layers),
            those (map wrap_target (zip wrappers target_layers))) of
        (Some where_locs, Some replace) \<Rightarrow> tree_at where_locs pytree replace
      | _ \<Rightarrow> Inl ValueError)"

text \<open>
  \<^verbatim>\<open>class IntermediateLayerGetter\<close>: the field \<^verbatim>\<open>model\<close>, and the tuple \<^verbatim>\<open>auxs\<close> of the
  enclosing call that \<^verbatim>\<open>__call__\<close> closes over (the addresses of the cells).
\<close>

record ('v, 'k, 'e) IntermediateLayerGetter =
  model :: "('v, 'k, 'e) module"
  auxs :: "nat list"

definition intermediate_layer_getter ::
  "('v, 'k, 'e) module \<Rightarrow> (('v, 'k, 'e) module \<Rightarrow> target list) \<Rightarrow> 'v heap \<Rightarrow>
   ('e error + ('v, 'k, 'e) IntermediateLayerGetter) \<times> 'v heap" where
  "intermediate_layer_getter md get_target_layers h =
     (case read_targets md (get_target_layers md) of
        Inl e \<Rightarrow> (Inl e, h)
      | Inr target_layers \<Rightarrow>
          (case make_pairs (length target_layers) h of
             (pairs, h') \<Rightarrow>
               (case unpack_zip pairs of
                  Inl e \<Rightarrow> (Inl e, h')
                | Inr (cells, wrappers) \<Rightarrow>
                    (case (case md of
                             Sequential layers \<Rightarrow> sequential_branch layers target_layers wrappers
                           | _ \<Rightarrow> tree_at_branch md target_layers wrappers) of
                       Inl e \<Rightarrow> (Inl e, h')
                     | Inr md' \<Rightarrow> (Inr \<lparr>model = md', auxs = cells\<rparr>, h')))))"

text \<open>
  \<^verbatim>\<open>IntermediateLayerGetter.__call__\<close>:
  \<^verbatim>\<open>out = self.model(x, key=key); return out, [aux.data for aux in auxs]\<close>.
\<close>

definition getter_call ::
  "('k \<Rightarrow> nat \<Rightarrow> 'k list) \<Rightarrow> ('v, 'k, 'e) IntermediateLayerGetter \<Rightarrow> 'v \<Rightarrow> 'k option \<Rightarrow> 'v heap \<Rightarrow>
   ('e error + 'v \<times> 'v option list) \<times> 'v heap" where
  "getter_call split g x key h =
     (case call split (model g) x key h of
        (Inl e, h') \<Rightarrow> (Inl e, h')
      | (Inr out, h') \<Rightarrow> (Inr (out, map (\<lambda>aux. data (h' ! aux)) (auxs g)), h'))"

section \<open>Notions used to state the properties\<close>

text \<open>
  The writes of a forward pass. A call is followed without a heap: it yields the result
  and the list of the \<^verbatim>\<open>aux.update(out)\<close> calls made, each as the pair of the cell
  written and the value, in the order in which they happened. A wrapper whose layer
  raised made no write.
\<close>

type_synonym ('v, 'e) traced = "('e error + 'v) \<times> (nat \<times> 'v) list"

fun trace_seq :: "(('v \<Rightarrow> 'k option \<Rightarrow> ('v, 'e) traced) \<times> 'k option) list \<Rightarrow> 'v \<Rightarrow> ('v, 'e) traced" where
  "trace_seq [] x = (Inr x, [])"
| "trace_seq ((f, k) # rest) x =
     (case f x k of
        (Inl e, w) \<Rightarrow> (Inl e, w)
      | (Inr y, w) \<Rightarrow> (case trace_seq rest y of (r, w') \<Rightarrow> (r, w @ w')))"

primrec trace_prog :: "('v \<Rightarrow> 'k option \<Rightarrow> ('v, 'e) traced) list \<Rightarrow> ('v, 'k, 'e) prog \<Rightarrow> ('v, 'e) traced" where
  "trace_prog fs (Return v) = (Inr v, [])"
| "trace_prog fs (Raise e) = (Inl (Raised e), [])"
| "trace_prog fs (Invoke i a k cont) =
     (if i < length fs then
        (case (fs ! i) a k of
           (Inl e, w) \<Rightarrow> (Inl e, w)
         | (Inr v, w) \<Rightarrow> (case trace_prog fs (cont v) of (r, w') \<Rightarrow> (r, w @ w')))
      else (Inl IndexError, []))"

fun trace :: "('k \<Rightarrow> nat \<Rightarrow> 'k list) \<Rightarrow> ('v, 'k, 'e) module \<Rightarrow> 'v \<Rightarrow> 'k option \<Rightarrow> ('v, 'e) traced" where
  "trace split (Layer f) x key =
     (case f x key of Inl e \<Rightarrow> (Inl (Raised e), []) | Inr y \<Rightarrow> (Inr y, []))"
| "trace split (Sequential layers) x key =
     trace_seq (zip (map (trace split) layers) (split_keys split key (length layers))) x"
| "trace split (Composite subs forward) x key =
     trace_prog (map (trace split) subs) (forward x key)"
| "trace split (IntermediateWrapper aux layer) x key =
     (case trace split layer x key of
        (Inl e, w) \<Rightarrow> (Inl e, w)
      | (Inr out, w) \<Rightarrow> (Inr out, w @ [(aux, out)]))"

text \<open>Replaying a list of writes on a heap.\<close>

fun write_all :: "(nat \<times> 'v) list \<Rightarrow> 'v heap \<Rightarrow> 'v heap" where
  "write_all [] h = h"
| "write_all ((aux, x) # w) h = write_all w (h[aux := update (h ! aux) x])"

text \<open>
  The model without the wrappers whose cell has an address from \<open>n\<close> on, and the models
  all of whose wrappers have a cell below \<open>n\<close> (every cell they refer to is one of the
  first \<open>n\<close> of the heap).
\<close>

fun unwrap_from :: "nat \<Rightarrow> ('v, 'k, 'e) module \<Rightarrow> ('v, 'k, 'e) module" where
  "unwrap_from n (Layer f) = Layer f"
| "unwrap_from n (Sequential layers) = Sequential (map (unwrap_from n) layers)"
| "unwrap_from n (Composite subs forward) = Composite (map (unwrap_from n) subs) forward"
| "unwrap_from n (IntermediateWrapper aux layer) =
     (if n \<le> aux then unwrap_from n layer else IntermediateWrapper aux (unwrap_from n layer))"

fun cells_below :: "nat \<Rightarrow> ('v, 'k, 'e) module \<Rightarrow> bool" where
  "cells_below n (Layer f) = True"
| "cells_below n (Sequential layers) = (\<forall>l \<in> set layers. cells_below n l)"
| "cells_below n (Composite subs forward) = (\<forall>l \<in> set subs. cells_below n l)"
| "cells_below n (IntermediateWrapper aux layer) = (aux < n \<and> cells_below n layer)"

text \<open>
  \<^verbatim>\<open>idx in target_layers\<close>, and the layer that the loop of the positional branch
  appends for the pair \<open>z\<close> of \<^verbatim>\<open>enumerate(model.layers)\<close> when it started at
  position \<open>i\<close> with the counter \<open>cnt\<close>.
\<close>

definition selected :: "('v, 'k, 'e) target_layer list \<Rightarrow> nat \<Rightarrow> bool" where
  "selected target_layers idx = (Index (int idx) \<in> set target_layers)"

definition wrap_scan ::
  "('v, 'k, 'e) target_layer list \<Rightarrow> (('v, 'k, 'e) module \<Rightarrow> ('v, 'k, 'e) module) list \<Rightarrow>
   nat \<Rightarrow> nat \<Rightarrow> nat \<times> ('v, 'k, 'e) module \<Rightarrow> ('v, 'k, 'e) module" where
  "wrap_scan ts ws cnt i z =
     (if selected ts (fst z)
      then (ws ! (cnt + length (filter (selected ts) [i..<fst z]))) (snd z)
      else snd z)"

text \<open>What reading one target yields.\<close>

fun reads :: "('v, 'k, 'e) module \<Rightarrow> target \<Rightarrow> ('v, 'k, 'e) target_layer \<Rightarrow> bool" where
  "reads m (Position i) tg = (tg = Index i)"
| "reads m (Location p) tg = (\<exists>t. subtree m p = Some t \<and> tg = Node p t)"


text \<open>The cells of the wrappers of a model, in the order of the tree.\<close>

fun wrapper_cells :: "('v, 'k, 'e) module \<Rightarrow> nat list" where
  "wrapper_cells (Layer f) = []"
| "wrapper_cells (Sequential layers) = concat (map wrapper_cells layers)"
| "wrapper_cells (Composite subs forward) = concat (map wrapper_cells subs)"
| "wrapper_cells (IntermediateWrapper aux layer) = aux # wrapper_cells layer"



text \<open>The heap after a list of earlier calls of the instrumented model, whatever they returned.\<close>

fun earlier_calls ::
  "('k \<Rightarrow> nat \<Rightarrow> 'k list) \<Rightarrow> ('v, 'k, 'e) IntermediateLayerGetter \<Rightarrow> ('v \<times> 'k option) list \<Rightarrow>
   'v heap \<Rightarrow> 'v heap" where
  "earlier_calls split g [] h = h"
| "earlier_calls split g ((x, key) # rest) h =
     earlier_calls split g rest (snd (getter_call split g x key h))"


text \<open>The values written to one cell, in order.\<close>

definition writes_to :: "nat \<Rightarrow> (nat \<times> 'v) list \<Rightarrow> 'v list" where
  "writes_to aux w = map snd (filter (\<lambda>p. fst p = aux) w)"

text \<open>
  The positions of a pipeline of \<open>n\<close> layers that the selector names, in ascending
  order: the order in which the loop of the positional branch meets them.
\<close>

definition scan_order :: "target list \<Rightarrow> nat \<Rightarrow> nat list" where
  "scan_order ts n = filter (\<lambda>i. Position (int i) \<in> set ts) [0..<n]"

text \<open>
  The capture list of a result; the outputs of the layers of a pipeline; and what the
  capture list would be if its entries followed the order in which the selector listed
  the positions.
\<close>

definition captures_of :: "'e error + 'v \<times> 'v option list \<Rightarrow> 'v option list option" where
  "captures_of r = (case r of Inl e \<Rightarrow> None | Inr (out, caps) \<Rightarrow> Some caps)"




text \<open>
  One call of the aggregator around the model that a branch of construction returned,
  reading the cells given.
\<close>

definition branch_call ::
  "('k \<Rightarrow> nat \<Rightarrow> 'k list) \<Rightarrow> 'e error + ('v, 'k, 'e) module \<Rightarrow> nat list \<Rightarrow> 'v \<Rightarrow> 'k option \<Rightarrow>
   'v heap \<Rightarrow> 'e error + 'v \<times> 'v option list" where
  "branch_call split branch cells x key h =
     (case branch of
        Inl e \<Rightarrow> Inl e
      | Inr md' \<Rightarrow> fst (getter_call split \<lparr>model = md', auxs = cells\<rparr> x key h))"

section \<open>Example models\<close>

text \<open>
  A three-stage pipeline over natural numbers: the second layer raises on inputs above
  100, the third uses its key. A composite that runs the pipeline and then calls its
  first sub-component twice.
\<close>

definition ex_split :: "nat \<Rightarrow> nat \<Rightarrow> nat list" where
  "ex_split k n = map (\<lambda>i. 2 * k + i) [0..<n]"

definition ex_layers :: "(nat, nat, string) module list" where
  "ex_layers =
     [Layer (\<lambda>x key. Inr (x + 1)),
      Layer (\<lambda>x key. if 100 < x then Inl ''overflow'' else Inr (2 * x)),
      Layer (\<lambda>x key. Inr (x + (case key of None \<Rightarrow> 10 | Some k \<Rightarrow> k)))]"

definition ex_forward :: "nat \<Rightarrow> nat option \<Rightarrow> (nat, nat, string) prog" where
  "ex_forward x key = Invoke 1 x key (\<lambda>y. Invoke 0 y key (\<lambda>z. Invoke 0 z key Return))"

definition ex_tree :: "(nat, nat, string) module" where
  "ex_tree = Composite [Layer (\<lambda>x key. Inr (x + 1)), Sequential ex_layers] ex_forward"


definition ex_select_0_0 :: "(nat, nat, string) module \<Rightarrow> target list" where
  "ex_select_0_0 m = [Position 0, Position 0]"

text \<open>
  The instrumented models that construction returns for the pipeline with the positions
  0 and 2, for the pipeline with position 0 listed twice, and for the composite with its
  first sub-component as the target.
\<close>

definition ex_flat_getter :: "(nat, nat, string) IntermediateLayerGetter" where
  "ex_flat_getter =
     \<lparr>model = Sequential [IntermediateWrapper 0 (ex_layers ! 0), ex_layers ! 1,
                          IntermediateWrapper 1 (ex_layers ! 2)],
      auxs = [0, 1]\<rparr>"

definition ex_dup_getter :: "(nat, nat, string) IntermediateLayerGetter" where
  "ex_dup_getter =
     \<lparr>model = Sequential [IntermediateWrapper 0 (ex_layers ! 0), ex_layers ! 1, ex_layers ! 2],
      auxs = [0, 1]\<rparr>"

definition ex_tree_getter :: "(nat, nat, string) IntermediateLayerGetter" where
  "ex_tree_getter =
     \<lparr>model = Composite [IntermediateWrapper 0 (Layer (\<lambda>x key. Inr (x + 1))), Sequential ex_layers]
                ex_forward,
      auxs = [0]\<rparr>"



section \<open>Properties of the semantics and of construction\<close>

lemma write_all_append: "write_all (w @ w') h = write_all w' (write_all w h)"
  by (induction w arbitrary: h) auto

lemma run_seq_trace:
  assumes "\<And>l x k h. l \<in> set ls \<Longrightarrow> F l x k h = (fst (G l x k), write_all (snd (G l x k)) h)"
  shows "run_seq (zip (map F ls) ks) x h =
         (fst (trace_seq (zip (map G ls) ks) x), write_all (snd (trace_seq (zip (map G ls) ks) x)) h)"
  using assms
proof (induction ls arbitrary: ks x h)
  case Nil
  then show ?case by simp
next
  case (Cons l ls)
  show ?case
  proof (cases ks)
    case Nil
    then show ?thesis by simp
  next
    case (Cons k ks')
    have hd: "F l x k h = (fst (G l x k), write_all (snd (G l x k)) h)"
      using Cons.prems by simp
    have tl: "\<And>y h'. run_seq (zip (map F ls) ks') y h' =
         (fst (trace_seq (zip (map G ls) ks') y), write_all (snd (trace_seq (zip (map G ls) ks') y)) h')"
      using Cons.IH Cons.prems by simp
    show ?thesis
      using hd tl Cons
      by (cases "G l x k") (auto split: sum.splits prod.splits simp: write_all_append)
  qed
qed

lemma run_prog_trace:
  assumes "length fs = length gs"
    and "\<And>i x k h. i < length fs \<Longrightarrow> (fs ! i) x k h = (fst ((gs ! i) x k), write_all (snd ((gs ! i) x k)) h)"
  shows "run_prog fs p h = (fst (trace_prog gs p), write_all (snd (trace_prog gs p)) h)"
  using assms
proof (induction p arbitrary: h)
  case (Return v)
  then show ?case by simp
next
  case (Raise e)
  then show ?case by simp
next
  case (Invoke i a k cont)
  show ?case
  proof (cases "i < length fs")
    case False
    then show ?thesis using Invoke.prems by simp
  next
    case True
    have st: "(fs ! i) a k h = (fst ((gs ! i) a k), write_all (snd ((gs ! i) a k)) h)"
      using Invoke.prems True by simp
    have rest: "\<And>v h'. run_prog fs (cont v) h' =
         (fst (trace_prog gs (cont v)), write_all (snd (trace_prog gs (cont v))) h')"
      using Invoke.IH Invoke.prems by (simp add: rangeI)
    show ?thesis
      using True st rest Invoke.prems(1)
      by (cases "(gs ! i) a k") (auto split: sum.splits prod.splits simp: write_all_append)
  qed
qed

lemma call_trace:
  "call split m x key h = (fst (trace split m x key), write_all (snd (trace split m x key)) h)"
proof (induction m arbitrary: x key h)
  case (Layer f)
  then show ?case by (simp split: sum.splits)
next
  case (Sequential layers)
  show ?case
    using run_seq_trace [of layers "call split" "trace split"] Sequential.IH
    by simp
next
  case (Composite subs forward)
  show ?case
    using run_prog_trace [of "map (call split) subs" "map (trace split) subs"] Composite.IH
    by simp
next
  case (IntermediateWrapper aux layer)
  show ?case
    using IntermediateWrapper.IH [of x key h]
    by (cases "trace split layer x key") (auto split: sum.splits simp: write_all_append)
qed


lemma trace_seq_fst_cong:
  assumes "\<And>l x k. l \<in> set ls \<Longrightarrow> fst (G' l x k) = fst (G l x k)"
  shows "fst (trace_seq (zip (map G' ls) ks) x) = fst (trace_seq (zip (map G ls) ks) x)"
  using assms
proof (induction ls arbitrary: ks x)
  case Nil
  then show ?case by simp
next
  case (Cons l ls)
  show ?case
  proof (cases ks)
    case Nil
    then show ?thesis by simp
  next
    case (Cons k ks')
    have hd: "fst (G' l x k) = fst (G l x k)"
      using Cons.prems by simp
    have tl: "\<And>y. fst (trace_seq (zip (map G' ls) ks') y) = fst (trace_seq (zip (map G ls) ks') y)"
      using Cons.IH Cons.prems by simp
    show ?thesis
      using hd tl [of "projr (fst (G l x k))"] Cons
      by (cases "G l x k"; cases "G' l x k") (auto split: sum.splits prod.splits)
  qed
qed

lemma trace_prog_fst_cong:
  assumes "length gs' = length gs"
    and "\<And>i x k. i < length gs \<Longrightarrow> fst ((gs' ! i) x k) = fst ((gs ! i) x k)"
  shows "fst (trace_prog gs' p) = fst (trace_prog gs p)"
  using assms
proof (induction p)
  case (Return v)
  then show ?case by simp
next
  case (Raise e)
  then show ?case by simp
next
  case (Invoke i a k cont)
  show ?case
  proof (cases "i < length gs")
    case False
    then show ?thesis using Invoke.prems by simp
  next
    case True
    have st: "fst ((gs' ! i) a k) = fst ((gs ! i) a k)"
      using Invoke.prems True by simp
    have rest: "\<And>v. fst (trace_prog gs' (cont v)) = fst (trace_prog gs (cont v))"
      using Invoke.IH Invoke.prems by (simp add: rangeI)
    show ?thesis
      using True st rest [of "projr (fst ((gs ! i) a k))"] Invoke.prems(1)
      by (cases "(gs ! i) a k"; cases "(gs' ! i) a k") (auto split: sum.splits prod.splits)
  qed
qed

lemma trace_unwrap_from:
  "fst (trace split (unwrap_from n m) x key) = fst (trace split m x key)"
proof (induction m arbitrary: x key)
  case (Layer f)
  then show ?case by simp
next
  case (Sequential layers)
  show ?case
    using trace_seq_fst_cong [of layers "\<lambda>l. trace split (unwrap_from n l)" "trace split"] Sequential.IH
    by (simp add: comp_def)
next
  case (Composite subs forward)
  show ?case
    using trace_prog_fst_cong [of "map (\<lambda>l. trace split (unwrap_from n l)) subs" "map (trace split) subs"] Composite.IH
    by (simp add: comp_def)
next
  case (IntermediateWrapper aux layer)
  show ?case
    using IntermediateWrapper.IH [of x key]
    by (cases "trace split layer x key"; cases "trace split (unwrap_from n layer) x key")
       (auto split: sum.splits)
qed

lemma call_unwrap_from:
  "fst (call split (unwrap_from n m) x key h) = fst (call split m x key h')"
  by (simp add: call_trace trace_unwrap_from)

lemma make_pairs_eq:
  "make_pairs n h =
     (map (\<lambda>a. (a, IntermediateWrapper a)) [length h..<length h + n], h @ replicate n AuxData_init)"
proof (induction n arbitrary: h)
  case 0
  then show ?case by simp
next
  case (Suc n)
  have "[length h..<length h + Suc n] = length h # [Suc (length h)..<Suc (length h) + n]"
    by (simp add: upt_conv_Cons)
  then show ?case
    using Suc.IH [of "h @ [AuxData_init]"]
    by (simp add: make_intermediate_layer_wrapper_def replicate_app_Cons_same)
qed

lemma filter_upt_Cons:
  "i < j \<Longrightarrow> filter P [i..<j] = (if P i then i # filter P [Suc i..<j] else filter P [Suc i..<j])"
  by (simp add: upt_conv_Cons)

lemma sequential_loop_Cons:
  "sequential_loop ts ws ((idx, md) # rest) acc cnt =
     (if selected ts idx then
        (if cnt < length ws then
           sequential_loop ts ws rest (acc @ [(ws ! cnt) md]) (Suc cnt)
         else Inl IndexError)
      else sequential_loop ts ws rest (acc @ [md]) cnt)"
  by (simp add: selected_def)

lemma wrap_scan_shift:
  assumes "z \<in> set (zip [Suc i..<Suc i + n] ls)"
  shows "wrap_scan ts ws cnt i z = wrap_scan ts ws (cnt + (if selected ts i then 1 else 0)) (Suc i) z"
proof -
  obtain j md where z: "z = (j, md)" by (cases z)
  have "j \<in> set [Suc i..<Suc i + n]"
    using assms unfolding z by (rule set_zip_leftD)
  then have "Suc i \<le> fst z" unfolding z by (simp only: set_upt atLeastLessThan_iff fst_conv)
  then have "i < fst z" by simp
  then show ?thesis
    by (simp add: wrap_scan_def filter_upt_Cons)
qed

lemma sequential_loop_eq:
  assumes "cnt + length (filter (selected ts) [i..<i + length ls]) \<le> length ws"
  shows "sequential_loop ts ws (zip [i..<i + length ls] ls) acc cnt =
         Inr (acc @ map (wrap_scan ts ws cnt i) (zip [i..<i + length ls] ls))"
  using assms
proof (induction ls arbitrary: i acc cnt)
  case Nil
  then show ?case by simp
next
  case (Cons md ls)
  let ?zs = "zip [Suc i..<Suc i + length ls] ls"
  have upt: "[i..<i + length (md # ls)] = i # [Suc i..<Suc i + length ls]"
    by (simp add: upt_conv_Cons del: upt_Suc)
  have zs: "zip [i..<i + length (md # ls)] (md # ls) = (i, md) # ?zs"
    unfolding upt by simp
  have tail: "map (wrap_scan ts ws cnt i) ?zs =
              map (wrap_scan ts ws (cnt + (if selected ts i then 1 else 0)) (Suc i)) ?zs"
    by (rule map_cong [OF refl]) (rule wrap_scan_shift)
  show ?case
  proof (cases "selected ts i")
    case True
    have bound: "Suc cnt + length (filter (selected ts) [Suc i..<Suc i + length ls]) \<le> length ws"
      using Cons.prems True unfolding upt by (simp del: upt_Suc)
    then have lt: "cnt < length ws" by simp
    have "sequential_loop ts ws ((i, md) # ?zs) acc cnt =
          sequential_loop ts ws ?zs (acc @ [(ws ! cnt) md]) (Suc cnt)"
      using True lt by (simp only: sequential_loop_Cons if_True)
    also have "\<dots> = Inr ((acc @ [(ws ! cnt) md]) @ map (wrap_scan ts ws (Suc cnt) (Suc i)) ?zs)"
      by (rule Cons.IH [OF bound])
    also have "\<dots> = Inr (acc @ map (wrap_scan ts ws cnt i) ((i, md) # ?zs))"
      using True tail by (simp add: wrap_scan_def)
    finally show ?thesis unfolding zs .
  next
    case False
    have bound: "cnt + length (filter (selected ts) [Suc i..<Suc i + length ls]) \<le> length ws"
      using Cons.prems False unfolding upt by (simp del: upt_Suc)
    have "sequential_loop ts ws ((i, md) # ?zs) acc cnt =
          sequential_loop ts ws ?zs (acc @ [md]) cnt"
      using False by (simp only: sequential_loop_Cons if_False)
    also have "\<dots> = Inr ((acc @ [md]) @ map (wrap_scan ts ws cnt (Suc i)) ?zs)"
      by (rule Cons.IH [OF bound])
    also have "\<dots> = Inr (acc @ map (wrap_scan ts ws cnt i) ((i, md) # ?zs))"
      using False tail by (simp add: wrap_scan_def)
    finally show ?thesis unfolding zs .
  qed
qed

lemma selected_count_le:
  fixes ts :: "('v, 'k, 'e) target_layer list"
  shows "length (filter (selected ts) [i..<j]) \<le> length ts"
proof -
  let ?xs = "filter (selected ts) [i..<j]"
  let ?f = "\<lambda>n. Index (int n) :: ('v, 'k, 'e) target_layer"
  have d: "distinct ?xs" by simp
  have sub: "?f ` set ?xs \<subseteq> set ts"
    by (auto simp: selected_def)
  have inj: "inj_on ?f (set ?xs)"
    by (simp add: inj_on_def)
  have "length ?xs = card (set ?xs)"
    by (rule distinct_card [OF d, symmetric])
  also have "\<dots> = card (?f ` set ?xs)"
    by (rule card_image [OF inj, symmetric])
  also have "\<dots> \<le> card (set ts)"
    by (rule card_mono [OF _ sub]) simp
  also have "\<dots> \<le> length ts"
    by (rule card_length)
  finally show ?thesis .
qed

lemma sequential_branch_eq:
  assumes "length ws = length ts"
  shows "sequential_branch layers ts ws =
         Inr (Sequential (map (\<lambda>j. if selected ts j
                                    then (ws ! length (filter (selected ts) [0..<j])) (layers ! j)
                                    else layers ! j) [0..<length layers]))"
proof -
  have b: "0 + length (filter (selected ts) [0..<0 + length layers]) \<le> length ws"
    using selected_count_le [of ts 0 "length layers"] assms by simp
  have z: "zip [0..<length layers] layers = map (\<lambda>j. (j, layers ! j)) [0..<length layers]"
    by (rule nth_equalityI) auto
  have "sequential_loop ts ws (zip [0..<length layers] layers) [] 0 =
        Inr (map (wrap_scan ts ws 0 0) (zip [0..<length layers] layers))"
    using sequential_loop_eq [OF b, of "[]"] by simp
  then show ?thesis
    by (simp add: sequential_branch_def z comp_def wrap_scan_def)
qed

lemma children_with_children:
  "length cs = length (children m) \<Longrightarrow> children (with_children m cs) = cs"
  by (cases m) (auto simp: length_Suc_conv)

lemma overlap_Nil [simp]: "overlap [] q" "overlap p []"
  by (simp_all add: overlap_def)

lemma overlap_Cons [simp]: "overlap (i # p) (j # q) = (i = j \<and> overlap p q)"
  by (auto simp: overlap_def)


lemma subtree_replace_at_other:
  "\<not> overlap p q \<Longrightarrow> replace_at m p r = Inr m' \<Longrightarrow> subtree m' q = subtree m q"
proof (induction p arbitrary: m m' q)
  case Nil
  then show ?case by simp
next
  case (Cons i p)
  from Cons.prems(2) obtain c where
    i: "i < length (children m)" and
    c: "replace_at (children m ! i) p r = Inr c" and
    m': "m' = with_children m ((children m)[i := c])"
    by (auto split: if_splits sum.splits)
  have ch: "children m' = (children m)[i := c]"
    unfolding m' by (rule children_with_children) simp
  show ?case
  proof (cases q)
    case Nil
    then show ?thesis using Cons.prems(1) by simp
  next
    case (Cons j q')
    show ?thesis
    proof (cases "j = i")
      case True
      then have "\<not> overlap p q'" using Cons.prems(1) Cons by simp
      then have "subtree c q' = subtree (children m ! i) q'"
        using Cons.IH c by blast
      then show ?thesis using Cons True i ch by simp
    next
      case False
      then show ?thesis using Cons ch by simp
    qed
  qed
qed

lemma replace_at_defined:
  "subtree m p = Some t \<Longrightarrow> \<exists>m'. replace_at m p r = Inr m'"
proof (induction p arbitrary: m)
  case Nil
  then show ?case by simp
next
  case (Cons i p)
  then show ?case by (fastforce split: if_splits)
qed

lemma unwrap_from_with_children:
  assumes "i < length (children m)" and "unwrap_from n c = unwrap_from n (children m ! i)"
  shows "unwrap_from n (with_children m ((children m)[i := c])) = unwrap_from n m"
proof -
  have "map (unwrap_from n) ((children m)[i := c]) = map (unwrap_from n) (children m)"
    using assms by (simp add: map_update list_update_same_conv)
  then show ?thesis
    using assms by (cases m) auto
qed

lemma unwrap_from_replace_at:
  "subtree m p = Some t \<Longrightarrow> unwrap_from n r = unwrap_from n t \<Longrightarrow> replace_at m p r = Inr m' \<Longrightarrow>
   unwrap_from n m' = unwrap_from n m"
proof (induction p arbitrary: m m')
  case Nil
  then show ?case by simp
next
  case (Cons i p)
  from Cons.prems(3) obtain c where
    i: "i < length (children m)" and
    c: "replace_at (children m ! i) p r = Inr c" and
    m': "m' = with_children m ((children m)[i := c])"
    by (auto split: if_splits sum.splits)
  have "subtree (children m ! i) p = Some t"
    using Cons.prems(1) i by simp
  then have "unwrap_from n c = unwrap_from n (children m ! i)"
    using Cons.IH Cons.prems(2) c by blast
  then show ?case
    unfolding m' using i by (rule unwrap_from_with_children [rotated])
qed




lemma unwrap_from_replace_all:
  "separate (map fst prs) \<Longrightarrow>
   \<forall>pr \<in> set prs. \<exists>t. subtree m (fst pr) = Some t \<and> unwrap_from n (snd pr) = unwrap_from n t \<Longrightarrow>
   replace_all m prs = Inr m' \<Longrightarrow> unwrap_from n m' = unwrap_from n m"
proof (induction prs arbitrary: m)
  case Nil
  then show ?case by simp
next
  case (Cons pr prs)
  obtain p r where pr: "pr = (p, r)" by (cases pr)
  from Cons.prems(3) obtain m1 where
    m1: "replace_at m p r = Inr m1" and rest: "replace_all m1 prs = Inr m'"
    unfolding pr by (auto split: sum.splits)
  have sep: "separate (map fst prs)" and far: "\<forall>q \<in> set (map fst prs). \<not> overlap p q"
    using Cons.prems(1) pr by simp_all
  obtain t where t: "subtree m p = Some t" "unwrap_from n r = unwrap_from n t"
    using Cons.prems(2) pr by auto
  have step: "unwrap_from n m1 = unwrap_from n m"
    using t m1 by (rule unwrap_from_replace_at)
  have "\<forall>pr \<in> set prs. \<exists>t. subtree m1 (fst pr) = Some t \<and> unwrap_from n (snd pr) = unwrap_from n t"
  proof
    fix pr' assume in_prs: "pr' \<in> set prs"
    then have "\<not> overlap p (fst pr')" using far by simp
    then have "subtree m1 (fst pr') = subtree m (fst pr')"
      using m1 by (rule subtree_replace_at_other)
    then show "\<exists>t. subtree m1 (fst pr') = Some t \<and> unwrap_from n (snd pr') = unwrap_from n t"
      using Cons.prems(2) in_prs by simp
  qed
  then have "unwrap_from n m' = unwrap_from n m1"
    using Cons.IH sep rest by blast
  then show ?case using step by simp
qed

lemma read_targets_reads:
  "read_targets m ts = Inr tls \<Longrightarrow> list_all2 (reads m) ts tls"
proof (induction ts arbitrary: tls)
  case Nil
  then show ?case by simp
next
  case (Cons t ts)
  then show ?case
    by (cases t) (auto split: sum.splits option.splits)
qed

lemma reads_selected:
  assumes "list_all2 (reads m) ts tls"
  shows "selected tls j = (Position (int j) \<in> set ts)"
proof -
  have "\<And>i. (Index i \<in> set tls) = (Position i \<in> set ts)"
    using assms
  proof (induction rule: list_all2_induct)
    case Nil
    then show ?case by simp
  next
    case (Cons t ts tg tls)
    then show ?case by (cases t) auto
  qed
  then show ?thesis by (simp add: selected_def)
qed

lemma those_Some_map: "those xs = Some ys \<Longrightarrow> xs = map Some ys"
proof (induction xs arbitrary: ys)
  case Nil
  then show ?case by simp
next
  case (Cons x xs)
  then show ?case by (cases x) auto
qed

lemma node_locations:
  assumes "list_all2 (reads m) ts tls" and "map node_location tls = map Some locs"
  shows "ts = map Location locs \<and> list_all2 (\<lambda>p tg. \<exists>t. subtree m p = Some t \<and> tg = Node p t) locs tls"
  using assms
proof (induction arbitrary: locs rule: list_all2_induct)
  case Nil
  then show ?case by simp
next
  case (Cons t ts tg tls)
  then show ?case by (cases t; cases locs) auto
qed

lemma wrap_targets:
  assumes "list_all2 (\<lambda>p tg. \<exists>t. subtree m p = Some t \<and> tg = Node p t) locs tls"
    and "length ws = length tls"
    and "map wrap_target (zip ws tls) = map Some replace"
  shows "list_all2 (\<lambda>p (w, r). \<exists>t. subtree m p = Some t \<and> r = w t) locs (zip ws replace)"
  using assms
proof (induction arbitrary: ws replace rule: list_all2_induct)
  case Nil
  then show ?case by simp
next
  case (Cons p locs tg tls)
  then show ?case by (cases ws; cases replace) auto
qed

lemma filter_selected_less:
  assumes "j < n" and "P j"
  shows "length (filter P [0..<j]) < length (filter P [0..<n])"
proof -
  have "[0..<j + (n - j)] = [0..<j] @ [j..<j + (n - j)]"
    by (rule upt_add_eq_append) simp
  then have "[0..<n] = [0..<j] @ j # [Suc j..<n]"
    using assms(1) by (simp add: upt_conv_Cons del: upt_Suc)
  then show ?thesis using assms(2) by (simp del: upt_Suc)
qed

lemma getter_success:
  fixes md :: "('v, 'k, 'e) module"
  assumes "intermediate_layer_getter md S h = (Inr g, h')"
  obtains tls where
    "read_targets md (S md) = Inr tls" and "tls \<noteq> []" and
    "h' = h @ replicate (length tls) AuxData_init" and
    "auxs g = [length h..<length h + length tls]" and
    "(case md of
        Sequential layers \<Rightarrow>
          sequential_branch layers tls (map IntermediateWrapper [length h..<length h + length tls])
      | _ \<Rightarrow> tree_at_branch md tls (map IntermediateWrapper [length h..<length h + length tls]))
     = Inr (model g)"
proof -
  from assms obtain tls where r: "read_targets md (S md) = Inr tls"
    by (auto simp: intermediate_layer_getter_def split: sum.splits)
  let ?n = "length tls"
  let ?cells = "[length h..<length h + ?n]"
  let ?ws = "map IntermediateWrapper ?cells :: (('v, 'k, 'e) module \<Rightarrow> ('v, 'k, 'e) module) list"
  let ?h = "h @ replicate ?n AuxData_init"
  let ?res = "(case md of
        Sequential layers \<Rightarrow> sequential_branch layers tls ?ws
      | _ \<Rightarrow> tree_at_branch md tls ?ws)"
  have ne: "tls \<noteq> []"
    using assms r by (auto simp: intermediate_layer_getter_def make_pairs_eq unpack_zip_def split: sum.splits if_splits)
  then have un: "unpack_zip (map (\<lambda>a. (a, IntermediateWrapper a)) ?cells)
        = (Inr (?cells, ?ws) :: 'e error + _)"
    by (simp add: unpack_zip_def comp_def)
  have eq: "intermediate_layer_getter md S h =
        (case ?res of Inl e \<Rightarrow> (Inl e, ?h) | Inr md' \<Rightarrow> (Inr \<lparr>model = md', auxs = ?cells\<rparr>, ?h))"
    by (simp add: intermediate_layer_getter_def r make_pairs_eq un)
  obtain md' where res: "?res = Inr md'" and g: "g = \<lparr>model = md', auxs = ?cells\<rparr>" and h': "h' = ?h"
    using assms unfolding eq by (cases ?res) auto
  show ?thesis
    using r ne h' g res by (intro that [of tls]) simp_all
qed

lemma tree_at_branch_success:
  assumes rd: "list_all2 (reads m) ts tls" and len: "length ws = length tls"
    and ok: "tree_at_branch m tls ws = Inr m'"
  obtains locs replace where
    "ts = map Location locs" and "length replace = length locs" and "separate locs" and
    "replace_all m (zip locs replace) = Inr m'" and
    "\<forall>j<length locs. \<exists>t. subtree m (locs ! j) = Some t \<and> tls ! j = Node (locs ! j) t
        \<and> replace ! j = (ws ! j) t"
proof -
  from ok obtain locs replace where
    l: "those (map node_location tls) = Some locs" and
    r: "those (map wrap_target (zip ws tls)) = Some replace" and
    t: "tree_at locs m replace = Inr m'"
    by (auto simp: tree_at_branch_def split: option.splits)
  have l': "map node_location tls = map Some locs"
    using l by (rule those_Some_map)
  have r': "map wrap_target (zip ws tls) = map Some replace"
    using r by (rule those_Some_map)
  have ts: "ts = map Location locs"
    and nodes: "list_all2 (\<lambda>p tg. \<exists>t. subtree m p = Some t \<and> tg = Node p t) locs tls"
    using node_locations [OF rd l'] by simp_all
  have wr: "list_all2 (\<lambda>p (w, r). \<exists>t. subtree m p = Some t \<and> r = w t) locs (zip ws replace)"
    using nodes len r' by (rule wrap_targets)
  have ll: "length locs = length tls"
    using nodes by (rule list_all2_lengthD)
  have lr: "length replace = length tls"
    using arg_cong [OF r', of length] len by simp
  have sep: "separate locs" and ra: "replace_all m (zip locs replace) = Inr m'"
    using t by (auto simp: tree_at_def split: if_splits)
  have each: "\<forall>j<length locs. \<exists>t. subtree m (locs ! j) = Some t \<and> tls ! j = Node (locs ! j) t
        \<and> replace ! j = (ws ! j) t"
  proof (intro allI impI)
    fix j assume j: "j < length locs"
    obtain t where t1: "subtree m (locs ! j) = Some t" and t2: "tls ! j = Node (locs ! j) t"
      using list_all2_nthD [OF nodes j] by auto
    obtain t' where t3: "subtree m (locs ! j) = Some t'" and t4: "replace ! j = (ws ! j) t'"
      using list_all2_nthD [OF wr j] j ll lr len by auto
    show "\<exists>t. subtree m (locs ! j) = Some t \<and> tls ! j = Node (locs ! j) t \<and> replace ! j = (ws ! j) t"
      using t1 t2 t3 t4 by auto
  qed
  show ?thesis
    using ts ll lr sep ra each by (intro that [of locs replace]) simp_all
qed

lemma getter_unwrap_from:
  fixes md :: "('v, 'k, 'e) module"
  assumes "intermediate_layer_getter md S h = (Inr g, h')"
  shows "unwrap_from (length h) (model g) = unwrap_from (length h) md"
proof -
  let ?n = "length h"
  from assms obtain tls where
    rd: "read_targets md (S md) = Inr tls" and
    br: "(case md of
        Sequential layers \<Rightarrow>
          sequential_branch layers tls (map IntermediateWrapper [?n..<?n + length tls])
      | _ \<Rightarrow> tree_at_branch md tls (map IntermediateWrapper [?n..<?n + length tls]))
     = Inr (model g)"
    by (rule getter_success)
  let ?ws = "map IntermediateWrapper [?n..<?n + length tls] :: (('v, 'k, 'e) module \<Rightarrow> ('v, 'k, 'e) module) list"
  have len: "length ?ws = length tls" by simp
  have tree: "unwrap_from ?n (model g) = unwrap_from ?n md"
    if ok: "tree_at_branch md tls ?ws = Inr (model g)"
  proof -
    from read_targets_reads [OF rd] len ok obtain locs replace where
      ll: "length replace = length locs" and sep: "separate locs" and
      ra: "replace_all md (zip locs replace) = Inr (model g)" and
      each: "\<forall>j<length locs. \<exists>t. subtree md (locs ! j) = Some t \<and> tls ! j = Node (locs ! j) t
          \<and> replace ! j = (?ws ! j) t" and
      ts: "S md = map Location locs"
      by (rule tree_at_branch_success)
    have lt: "length locs = length tls"
      using list_all2_lengthD [OF read_targets_reads [OF rd]] ts by simp
    have ex: "\<forall>pr \<in> set (zip locs replace).
            \<exists>t. subtree md (fst pr) = Some t \<and> unwrap_from ?n (snd pr) = unwrap_from ?n t"
    proof
      fix pr assume "pr \<in> set (zip locs replace)"
      then obtain j where j: "j < length locs" and pr: "pr = (locs ! j, replace ! j)"
        using ll by (auto simp: set_zip)
      obtain t where t: "subtree md (locs ! j) = Some t" "replace ! j = (?ws ! j) t"
        using each j by blast
      have "?ws ! j = IntermediateWrapper (?n + j)"
        using j lt by simp
      then show "\<exists>t. subtree md (fst pr) = Some t \<and> unwrap_from ?n (snd pr) = unwrap_from ?n t"
        using t pr by simp
    qed
    have sep': "separate (map fst (zip locs replace))"
      using sep ll by simp
    show ?thesis
      using sep' ex ra by (rule unwrap_from_replace_all)
  qed
  show ?thesis
  proof (cases md)
    case (Sequential layers)
    let ?c = "\<lambda>j. length (filter (selected tls) [0..<j])"
    have "model g = Sequential (map (\<lambda>j. if selected tls j then (?ws ! ?c j) (layers ! j)
                                    else layers ! j) [0..<length layers])"
      using br Sequential sequential_branch_eq [OF len, of layers] by simp
    moreover have "map (\<lambda>j. unwrap_from ?n (if selected tls j then (?ws ! ?c j) (layers ! j)
                                    else layers ! j)) [0..<length layers] = map (unwrap_from ?n) layers"
    proof (rule nth_equalityI)
      show "length (map (\<lambda>j. unwrap_from ?n (if selected tls j then (?ws ! ?c j) (layers ! j)
                                    else layers ! j)) [0..<length layers]) = length (map (unwrap_from ?n) layers)"
        by simp
    next
      fix j assume "j < length (map (\<lambda>j. unwrap_from ?n (if selected tls j then (?ws ! ?c j) (layers ! j)
                                    else layers ! j)) [0..<length layers])"
      then have j: "j < length layers" by simp
      have "?ws ! ?c j = IntermediateWrapper (?n + ?c j)" if "selected tls j"
      proof -
        have "?c j < length (filter (selected tls) [0..<length layers])"
          using j that by (rule filter_selected_less)
        also have "\<dots> \<le> length tls" by (rule selected_count_le)
        finally show ?thesis by simp
      qed
      then show "map (\<lambda>j. unwrap_from ?n (if selected tls j then (?ws ! ?c j) (layers ! j)
                                    else layers ! j)) [0..<length layers] ! j = map (unwrap_from ?n) layers ! j"
        using j by simp
    qed
    ultimately show ?thesis
      using Sequential by (simp add: comp_def)
  next
    case (Layer f)
    then show ?thesis using br tree by simp
  next
    case (Composite subs forward)
    then show ?thesis using br tree by simp
  next
    case (IntermediateWrapper aux layer)
    then show ?thesis using br tree by simp
  qed
qed

lemma getter_output:
  assumes "intermediate_layer_getter md S h = (Inr g, h')"
  shows "map_sum id fst (fst (getter_call split g x key h1)) = fst (call split md x key h0)"
proof -
  have "fst (trace split (model g) x key) = fst (trace split md x key)"
    using trace_unwrap_from [of split "length h" "model g" x key]
      trace_unwrap_from [of split "length h" md x key]
      getter_unwrap_from [OF assms]
    by simp
  then show ?thesis
    by (cases "fst (trace split md x key)") (simp_all add: getter_call_def call_trace)
qed

lemma length_write_all [simp]: "length (write_all w h) = length h"
  by (induction w arbitrary: h) auto

lemma write_all_frame:
  "writes_to aux w = [] \<Longrightarrow> write_all w h ! aux = h ! aux"
proof (induction w arbitrary: h)
  case Nil
  then show ?case by simp
next
  case (Cons p w)
  obtain c v where p: "p = (c, v)" by (cases p)
  have ne: "c \<noteq> aux" and rest: "writes_to aux w = []"
    using Cons.prems p by (auto simp: writes_to_def split: if_splits)
  show ?case
    using Cons.IH [OF rest, of "h[c := update (h ! c) v]"] ne p by simp
qed

lemma write_all_last:
  "aux < length h \<Longrightarrow> writes_to aux w \<noteq> [] \<Longrightarrow>
   data (write_all w h ! aux) = Some (last (writes_to aux w))"
proof (induction w arbitrary: h)
  case Nil
  then show ?case by (simp add: writes_to_def)
next
  case (Cons p w)
  obtain c v where p: "p = (c, v)" by (cases p)
  let ?h = "h[c := update (h ! c) v]"
  have len: "aux < length ?h" using Cons.prems(1) by simp
  show ?case
  proof (cases "writes_to aux w = []")
    case True
    then have "c = aux"
      using Cons.prems(2) p by (auto simp: writes_to_def split: if_splits)
    moreover have "write_all w ?h ! aux = ?h ! aux"
      using True by (rule write_all_frame)
    ultimately show ?thesis
      using True p Cons.prems(1) by (simp add: writes_to_def update_def)
  next
    case False
    have "last (writes_to aux (p # w)) = last (writes_to aux w)"
      using False by (simp add: writes_to_def)
    then show ?thesis
      using Cons.IH [OF len False] p by simp
  qed
qed

lemma getter_call_captures:
  assumes "getter_call split g x key h = (Inr (out, caps), h')"
  shows "h' = write_all (snd (trace split (model g) x key)) h"
    and "caps = map (\<lambda>aux. data (h' ! aux)) (auxs g)"
  using assms by (auto simp: getter_call_def call_trace split: sum.splits)

lemma snd_getter_call:
  "snd (getter_call split g x key h) = write_all (snd (trace split (model g) x key)) h"
  by (cases "fst (trace split (model g) x key)") (simp_all add: getter_call_def call_trace)

lemma earlier_calls_frame:
  assumes "\<forall>c \<in> set calls. writes_to aux (snd (trace split (model g) (fst c) (snd c))) = []"
  shows "earlier_calls split g calls h ! aux = h ! aux"
  using assms
proof (induction calls arbitrary: h)
  case Nil
  then show ?case by simp
next
  case (Cons c calls)
  obtain x key where c: "c = (x, key)" by (cases c)
  have "earlier_calls split g calls (snd (getter_call split g x key h)) ! aux
        = snd (getter_call split g x key h) ! aux"
    using Cons by simp
  also have "\<dots> = h ! aux"
    unfolding snd_getter_call using Cons.prems c by (intro write_all_frame) simp
  finally show ?case using c by simp
qed

lemma wrapper_call:
  assumes "call split layer x key h = (Inr y, h1)" and "aux < length h"
  shows "\<exists>h2. call split (IntermediateWrapper aux layer) x key h = (Inr y, h2)
            \<and> data (h2 ! aux) = Some y \<and> (\<forall>c. c \<noteq> aux \<longrightarrow> h2 ! c = h1 ! c)"
proof -
  have "h1 = write_all (snd (trace split layer x key)) h"
    using assms(1) by (simp add: call_trace)
  then have "aux < length h1"
    using assms(2) by simp
  then show ?thesis
    using assms(1) by (simp add: update_def)
qed

lemma filter_less_take:
  fixes xs :: "nat list"
  shows "sorted_wrt (<) xs \<Longrightarrow> k < length xs \<Longrightarrow> filter (\<lambda>x. x < xs ! k) xs = take k xs"
proof (induction xs arbitrary: k)
  case Nil
  then show ?case by simp
next
  case (Cons x xs)
  show ?case
  proof (cases k)
    case 0
    have "\<forall>y \<in> set xs. \<not> y < x" using Cons.prems(1) by auto
    then show ?thesis using 0 by (simp add: filter_empty_conv)
  next
    case (Suc k')
    have k': "k' < length xs" using Cons.prems(2) Suc by simp
    then have "xs ! k' \<in> set xs" by simp
    then have "x < xs ! k'" using Cons.prems(1) by auto
    moreover have "filter (\<lambda>y. y < xs ! k') xs = take k' xs"
      using Cons.IH [OF _ k'] Cons.prems(1) by simp
    ultimately show ?thesis using Suc by simp
  qed
qed

lemma filter_mem_upt:
  fixes xs :: "nat list"
  assumes "sorted_wrt (<) xs"
  shows "filter (\<lambda>i. i \<in> set xs) [0..<m] = filter (\<lambda>x. x < m) xs"
proof (rule strict_sorted_equal)
  show "sorted_wrt (<) (filter (\<lambda>x. x < m) xs)"
    using assms by (rule sorted_wrt_filter)
  show "sorted_wrt (<) (filter (\<lambda>i. i \<in> set xs) [0..<m])"
    by (rule sorted_wrt_filter) simp
  show "set (filter (\<lambda>i. i \<in> set xs) [0..<m]) = set (filter (\<lambda>x. x < m) xs)"
    by auto
qed

lemma sorted_count:
  fixes xs :: "nat list"
  assumes "sorted_wrt (<) xs" and "k < length xs"
  shows "length (filter (\<lambda>i. i \<in> set xs) [0..<xs ! k]) = k"
  using assms by (simp add: filter_mem_upt filter_less_take)

lemma count_before_selected:
  assumes "k < length (filter P [0..<n])"
  shows "length (filter P [0..<filter P [0..<n] ! k]) = k"
proof -
  let ?xs = "filter P [0..<n]"
  have s: "sorted_wrt (<) ?xs" by (rule sorted_wrt_filter) simp
  have "?xs ! k \<in> set ?xs" using assms by (rule nth_mem)
  then have j: "?xs ! k < n" by simp
  have "filter P [0..<?xs ! k] = filter (\<lambda>i. i \<in> set ?xs) [0..<?xs ! k]"
    using j by (intro filter_cong refl) auto
  then show ?thesis
    using sorted_count [OF s assms] by simp
qed

lemma selected_nth:
  assumes "k < length (filter P [0..<n])"
  shows "filter P [0..<n] ! k < n" and "P (filter P [0..<n] ! k)"
proof -
  have "filter P [0..<n] ! k \<in> set (filter P [0..<n])" using assms by (rule nth_mem)
  then show "filter P [0..<n] ! k < n" and "P (filter P [0..<n] ! k)" by simp_all
qed

lemma getter_sequential:
  fixes layers :: "('v, 'k, 'e) module list"
  assumes "intermediate_layer_getter (Sequential layers) S h = (Inr g, h')"
  shows "model g = Sequential (map (\<lambda>j. if Position (int j) \<in> set (S (Sequential layers))
             then IntermediateWrapper (length h + length (scan_order (S (Sequential layers)) j)) (layers ! j)
             else layers ! j) [0..<length layers])"
proof -
  let ?n = "length h"
  let ?ts = "S (Sequential layers)"
  from assms obtain tls :: "('v, 'k, 'e) target_layer list" where
    rd: "read_targets (Sequential layers) ?ts = Inr tls" and
    br: "sequential_branch layers tls (map IntermediateWrapper [?n..<?n + length tls]) = Inr (model g)"
    by (rule getter_success) simp
  let ?ws = "map IntermediateWrapper [?n..<?n + length tls] :: (('v, 'k, 'e) module \<Rightarrow> ('v, 'k, 'e) module) list"
  let ?c = "\<lambda>j. length (filter (selected tls) [0..<j])"
  have sel: "\<And>j. selected tls j = (Position (int j) \<in> set ?ts)"
    using reads_selected [OF read_targets_reads [OF rd]] .
  then have "selected tls = (\<lambda>j. Position (int j) \<in> set ?ts)"
    by (intro ext)
  then have cnt: "\<And>j. ?c j = length (scan_order ?ts j)"
    by (simp add: scan_order_def)
  have len: "length ?ws = length tls" by simp
  have m: "model g = Sequential (map (\<lambda>j. if selected tls j then (?ws ! ?c j) (layers ! j)
                                    else layers ! j) [0..<length layers])"
    using br sequential_branch_eq [OF len, of layers] by simp
  have "map (\<lambda>j. if selected tls j then (?ws ! ?c j) (layers ! j) else layers ! j) [0..<length layers]
      = map (\<lambda>j. if Position (int j) \<in> set ?ts
             then IntermediateWrapper (?n + length (scan_order ?ts j)) (layers ! j)
             else layers ! j) [0..<length layers]"
  proof (rule map_cong [OF refl])
    fix j assume "j \<in> set [0..<length layers]"
    then have j: "j < length layers" by simp
    have "?ws ! ?c j = IntermediateWrapper (?n + ?c j)" if "selected tls j"
    proof -
      have "?c j < length (filter (selected tls) [0..<length layers])"
        using j that by (rule filter_selected_less)
      also have "\<dots> \<le> length tls" by (rule selected_count_le)
      finally show ?thesis by simp
    qed
    then show "(if selected tls j then (?ws ! ?c j) (layers ! j) else layers ! j)
        = (if Position (int j) \<in> set ?ts
             then IntermediateWrapper (?n + length (scan_order ?ts j)) (layers ! j)
             else layers ! j)"
      using sel [of j] cnt [of j] by simp
  qed
  then show ?thesis using m by simp
qed


lemma scan_order_le: "length (scan_order ts n) \<le> length ts"
proof -
  let ?xs = "scan_order ts n"
  have d: "distinct ?xs" by (simp add: scan_order_def)
  have sub: "(\<lambda>i. Position (int i)) ` set ?xs \<subseteq> set ts"
    by (auto simp: scan_order_def)
  have inj: "inj_on (\<lambda>i. Position (int i)) (set ?xs)"
    by (simp add: inj_on_def)
  have "length ?xs = card (set ?xs)"
    by (rule distinct_card [OF d, symmetric])
  also have "\<dots> = card ((\<lambda>i. Position (int i)) ` set ?xs)"
    by (rule card_image [OF inj, symmetric])
  also have "\<dots> \<le> card (set ts)"
    by (rule card_mono [OF _ sub]) simp
  also have "\<dots> \<le> length ts"
    by (rule card_length)
  finally show ?thesis .
qed

lemma getter_cells:
  fixes md :: "('v, 'k, 'e) module"
  assumes "intermediate_layer_getter md S h = (Inr g, h')"
  shows "auxs g = [length h..<length h + length (S md)]"
    and "h' = h @ replicate (length (S md)) AuxData_init"
    and "S md \<noteq> []"
proof -
  from assms obtain tls :: "('v, 'k, 'e) target_layer list" where
    rd: "read_targets md (S md) = Inr tls" and ne: "tls \<noteq> []" and
    h': "h' = h @ replicate (length tls) AuxData_init" and
    au: "auxs g = [length h..<length h + length tls]"
    by (rule getter_success) blast
  have "length (S md) = length tls"
    using read_targets_reads [OF rd] by (rule list_all2_lengthD)
  then show "auxs g = [length h..<length h + length (S md)]"
    and "h' = h @ replicate (length (S md)) AuxData_init" and "S md \<noteq> []"
    using ne h' au by auto
qed

lemma read_positions:
  "read_targets md (map (\<lambda>i. Position (int i)) idxs) = Inr (map (\<lambda>i. Index (int i)) idxs)"
  by (induction idxs) simp_all

lemma read_locations:
  "\<forall>i \<in> set idxs. i < length layers \<Longrightarrow>
   read_targets (Sequential layers) (map (\<lambda>i. Location [i]) idxs)
     = Inr (map (\<lambda>i. Node [i] (layers ! i)) idxs)"
  by (induction idxs) simp_all

lemma those_map_Some: "those (map Some xs) = Some xs"
  by (induction xs) simp_all

lemma separate_singletons: "separate (map (\<lambda>i. [i]) idxs) = distinct idxs"
  by (induction idxs) (auto simp: overlap_def)

lemma replace_all_flat:
  "\<forall>i \<in> set idxs. i < length ls \<Longrightarrow>
   replace_all (Sequential ls) (zip (map (\<lambda>i. [i]) idxs) rs)
     = Inr (Sequential (fold (\<lambda>(i, r) l. l[i := r]) (zip idxs rs) ls))"
proof (induction idxs arbitrary: ls rs)
  case Nil
  then show ?case by simp
next
  case (Cons i idxs)
  show ?case
  proof (cases rs)
    case Nil
    then show ?thesis by simp
  next
    case (Cons r rs')
    have "\<forall>j \<in> set idxs. j < length (ls[i := r])"
      using Cons.prems by simp
    then show ?thesis
      using Cons.IH [of "ls[i := r]" rs'] Cons.prems Cons by simp
  qed
qed

lemma length_fold_update [simp]:
  "length (fold (\<lambda>(i, r) l. l[i := r]) prs ls) = length ls"
  by (induction prs arbitrary: ls) (auto split: prod.splits)

lemma fold_update_other:
  "j \<notin> fst ` set prs \<Longrightarrow> fold (\<lambda>(i, r) l. l[i := r]) prs ls ! j = ls ! j"
  by (induction prs arbitrary: ls) (auto split: prod.splits)

lemma fold_update_same:
  "distinct (map fst prs) \<Longrightarrow> k < length prs \<Longrightarrow> fst (prs ! k) < length ls \<Longrightarrow>
   fold (\<lambda>(i, r) l. l[i := r]) prs ls ! (fst (prs ! k)) = snd (prs ! k)"
proof (induction prs arbitrary: ls k)
  case Nil
  then show ?case by simp
next
  case (Cons pr prs)
  obtain i r where pr: "pr = (i, r)" by (cases pr)
  show ?case
  proof (cases k)
    case 0
    have "i \<notin> fst ` set prs" using Cons.prems(1) pr by simp
    then have "fold (\<lambda>(i, r) l. l[i := r]) prs (ls[i := r]) ! i = ls[i := r] ! i"
      by (rule fold_update_other)
    then show ?thesis using 0 pr Cons.prems(3) by simp
  next
    case (Suc k')
    then show ?thesis
      using Cons.IH [of k' "ls[i := r]"] Cons.prems pr by simp
  qed
qed

lemma tree_at_branch_flat:
  fixes layers :: "('v, 'k, 'e) module list"
  assumes "distinct idxs" and "\<forall>i \<in> set idxs. i < length layers" and "length ws = length idxs"
  shows "tree_at_branch (Sequential layers) (map (\<lambda>i. Node [i] (layers ! i)) idxs) ws
         = Inr (Sequential (fold (\<lambda>(i, r) l. l[i := r])
                  (zip idxs (map (\<lambda>(w, i). w (layers ! i)) (zip ws idxs))) layers))"
proof -
  let ?tls = "map (\<lambda>i. Node [i] (layers ! i)) idxs :: ('v, 'k, 'e) target_layer list"
  let ?rs = "map (\<lambda>(w, i). w (layers ! i)) (zip ws idxs)"
  have "map node_location ?tls = map Some (map (\<lambda>i. [i]) idxs)"
    by simp
  then have l: "those (map node_location ?tls) = Some (map (\<lambda>i. [i]) idxs)"
    by (simp only: those_map_Some)
  have "map wrap_target (zip ws ?tls) = map Some ?rs"
    by (simp add: zip_map2 comp_def case_prod_unfold)
  then have r: "those (map wrap_target (zip ws ?tls)) = Some ?rs"
    by (simp only: those_map_Some)
  have t: "tree_at (map (\<lambda>i. [i]) idxs) (Sequential layers) ?rs
           = replace_all (Sequential layers) (zip (map (\<lambda>i. [i]) idxs) ?rs)"
    using assms(1,3) by (simp add: tree_at_def separate_singletons)
  show ?thesis
    unfolding tree_at_branch_def l r using t replace_all_flat [OF assms(2)] by simp
qed



lemma trace_cells_seq:
  assumes "\<And>l x k. l \<in> set ls \<Longrightarrow> fst ` set (snd (G l x k)) \<subseteq> A"
  shows "fst ` set (snd (trace_seq (zip (map G ls) ks) x)) \<subseteq> A"
  using assms
proof (induction ls arbitrary: ks x)
  case Nil
  then show ?case by simp
next
  case (Cons l ls)
  show ?case
  proof (cases ks)
    case Nil
    then show ?thesis by simp
  next
    case (Cons k ks')
    have hd: "fst ` set (snd (G l x k)) \<subseteq> A"
      by (rule Cons.prems) simp
    have tl: "\<And>y. fst ` set (snd (trace_seq (zip (map G ls) ks') y)) \<subseteq> A"
      by (rule Cons.IH) (rule Cons.prems, simp)
    obtain r w where g: "G l x k = (r, w)" by (cases "G l x k")
    show ?thesis
    proof (cases r)
      case (Inl e)
      then show ?thesis using hd g Cons by simp
    next
      case (Inr y)
      obtain r' w' where t: "trace_seq (zip (map G ls) ks') y = (r', w')"
        by (cases "trace_seq (zip (map G ls) ks') y")
      have "fst ` set w' \<subseteq> A" using tl [of y] t by simp
      then show ?thesis using hd g Cons Inr t by (simp add: image_Un)
    qed
  qed
qed

lemma trace_cells_prog:
  assumes "\<And>i x k. i < length gs \<Longrightarrow> fst ` set (snd ((gs ! i) x k)) \<subseteq> A"
  shows "fst ` set (snd (trace_prog gs pr)) \<subseteq> A"
  using assms
proof (induction pr)
  case (Return v)
  then show ?case by simp
next
  case (Raise e)
  then show ?case by simp
next
  case (Invoke i a k cont)
  show ?case
  proof (cases "i < length gs")
    case False
    then show ?thesis by simp
  next
    case True
    have st: "fst ` set (snd ((gs ! i) a k)) \<subseteq> A"
      using True by (rule Invoke.prems)
    have rest: "\<And>v. fst ` set (snd (trace_prog gs (cont v))) \<subseteq> A"
      by (rule Invoke.IH) (simp_all add: rangeI Invoke.prems)
    obtain r w where g: "(gs ! i) a k = (r, w)" by (cases "(gs ! i) a k")
    show ?thesis
    proof (cases r)
      case (Inl e)
      then show ?thesis using st g True by simp
    next
      case (Inr y)
      obtain r' w' where t: "trace_prog gs (cont y) = (r', w')"
        by (cases "trace_prog gs (cont y)")
      have "fst ` set w' \<subseteq> A" using rest [of y] t by simp
      then show ?thesis using st g True Inr t by (simp add: image_Un)
    qed
  qed
qed

lemma trace_cells:
  "fst ` set (snd (trace split m x key)) \<subseteq> set (wrapper_cells m)"
proof (induction m arbitrary: x key)
  case (Layer f)
  then show ?case by (simp split: sum.splits)
next
  case (Sequential layers)
  have "fst ` set (snd (trace_seq (zip (map (trace split) layers) (split_keys split key (length layers))) x))
          \<subseteq> set (wrapper_cells (Sequential layers))"
  proof (rule trace_cells_seq)
    fix l x k assume l: "l \<in> set layers"
    have "fst ` set (snd (trace split l x k)) \<subseteq> set (wrapper_cells l)"
      using l by (rule Sequential.IH)
    also have "\<dots> \<subseteq> set (wrapper_cells (Sequential layers))"
      using l by auto
    finally show "fst ` set (snd (trace split l x k)) \<subseteq> set (wrapper_cells (Sequential layers))" .
  qed
  then show ?case by simp
next
  case (Composite subs forward)
  have "fst ` set (snd (trace_prog (map (trace split) subs) (forward x key)))
          \<subseteq> set (wrapper_cells (Composite subs forward))"
  proof (rule trace_cells_prog)
    fix i x k assume "i < length (map (trace split) subs)"
    then have i: "i < length subs" by simp
    then have l: "subs ! i \<in> set subs" by simp
    have "fst ` set (snd (trace split (subs ! i) x k)) \<subseteq> set (wrapper_cells (subs ! i))"
      using l by (rule Composite.IH)
    also have "\<dots> \<subseteq> set (wrapper_cells (Composite subs forward))"
      using l by auto
    finally show "fst ` set (snd ((map (trace split) subs ! i) x k)) \<subseteq> set (wrapper_cells (Composite subs forward))"
      using i by simp
  qed
  then show ?case by simp
next
  case (IntermediateWrapper aux layer)
  obtain r w where g: "trace split layer x key = (r, w)" by (cases "trace split layer x key")
  have "fst ` set w \<subseteq> set (wrapper_cells layer)"
    using IntermediateWrapper.IH [of x key] g by simp
  then show ?case
    using g by (cases r) auto
qed

lemma wrapper_cells_below:
  "cells_below n m \<Longrightarrow> a \<in> set (wrapper_cells m) \<Longrightarrow> a < n"
  by (induction m) auto







lemma mset_concat_update:
  "i < length ls \<Longrightarrow>
   mset (concat (map f (ls[i := c]))) + mset (f (ls ! i)) = mset (concat (map f ls)) + mset (f c)"
proof (induction ls arbitrary: i)
  case Nil
  then show ?case by simp
next
  case (Cons l ls)
  show ?case
  proof (cases i)
    case 0
    then show ?thesis by simp
  next
    case (Suc i')
    then show ?thesis
      using Cons.IH [of i'] Cons.prems by (simp add: ac_simps)
  qed
qed

lemma mset_cells_with_children:
  assumes "i < length (children m)"
  shows "mset (wrapper_cells (with_children m ((children m)[i := c]))) + mset (wrapper_cells (children m ! i))
       = mset (wrapper_cells m) + mset (wrapper_cells c)"
proof (cases m)
  case (Layer f)
  then show ?thesis using assms by simp
next
  case (Sequential layers)
  then show ?thesis using assms mset_concat_update [of i layers wrapper_cells c] by simp
next
  case (Composite subs forward)
  then show ?thesis using assms mset_concat_update [of i subs wrapper_cells c] by simp
next
  case (IntermediateWrapper aux layer)
  then show ?thesis using assms by simp
qed

lemma mset_cells_replace_at:
  "subtree m p = Some t \<Longrightarrow> replace_at m p r = Inr m' \<Longrightarrow>
   mset (wrapper_cells m') + mset (wrapper_cells t) = mset (wrapper_cells m) + mset (wrapper_cells r)"
proof (induction p arbitrary: m m')
  case Nil
  then show ?case by simp
next
  case (Cons i p)
  from Cons.prems(2) obtain c where
    i: "i < length (children m)" and
    c: "replace_at (children m ! i) p r = Inr c" and
    m': "m' = with_children m ((children m)[i := c])"
    by (auto split: if_splits sum.splits)
  have s: "subtree (children m ! i) p = Some t"
    using Cons.prems(1) i by simp
  have ih: "mset (wrapper_cells c) + mset (wrapper_cells t)
      = mset (wrapper_cells (children m ! i)) + mset (wrapper_cells r)"
    using s c by (rule Cons.IH)
  have st: "mset (wrapper_cells m') + mset (wrapper_cells (children m ! i))
       = mset (wrapper_cells m) + mset (wrapper_cells c)"
    unfolding m' using i by (rule mset_cells_with_children)
  let ?M' = "mset (wrapper_cells m')" and ?M = "mset (wrapper_cells m)"
  let ?T = "mset (wrapper_cells t)" and ?R = "mset (wrapper_cells r)"
  let ?C = "mset (wrapper_cells c)" and ?I = "mset (wrapper_cells (children m ! i))"
  have "?M' + ?T + ?I = (?M' + ?I) + ?T"
    by (simp only: ac_simps)
  also have "\<dots> = (?M + ?C) + ?T"
    by (simp only: st)
  also have "\<dots> = ?M + (?C + ?T)"
    by (simp only: ac_simps)
  also have "\<dots> = ?M + (?I + ?R)"
    by (simp only: ih)
  also have "\<dots> = (?M + ?R) + ?I"
    by (simp only: ac_simps)
  finally show ?case
    by (simp only: add_right_cancel)
qed

lemma mset_cells_replace_all:
  "separate locs \<Longrightarrow> length rs = length locs \<Longrightarrow> length cs = length locs \<Longrightarrow>
   \<forall>j<length locs. \<exists>t. subtree m (locs ! j) = Some t \<and> rs ! j = IntermediateWrapper (cs ! j) t \<Longrightarrow>
   replace_all m (zip locs rs) = Inr m' \<Longrightarrow>
   mset (wrapper_cells m') = mset (wrapper_cells m) + mset cs"
proof (induction locs arbitrary: m rs cs)
  case Nil
  then show ?case by simp
next
  case (Cons p locs)
  obtain r rs' where rs: "rs = r # rs'" using Cons.prems(2) by (cases rs) auto
  obtain c cs' where cs: "cs = c # cs'" using Cons.prems(3) by (cases cs) auto
  from Cons.prems(5) obtain m1 where
    m1: "replace_at m p r = Inr m1" and rest: "replace_all m1 (zip locs rs') = Inr m'"
    unfolding rs by (auto split: sum.splits)
  obtain t where t: "subtree m p = Some t" and r: "r = IntermediateWrapper c t"
    using Cons.prems(4) rs cs by fastforce
  have "mset (wrapper_cells m1) + mset (wrapper_cells t) = mset (wrapper_cells m) + mset (wrapper_cells r)"
    using t m1 by (rule mset_cells_replace_at)
  then have step: "mset (wrapper_cells m1) = add_mset c (mset (wrapper_cells m))"
    unfolding r by simp
  have sep: "separate locs" and far: "\<forall>q \<in> set locs. \<not> overlap p q"
    using Cons.prems(1) by simp_all
  have each: "\<forall>j<length locs. \<exists>t. subtree m1 (locs ! j) = Some t \<and> rs' ! j = IntermediateWrapper (cs' ! j) t"
  proof (intro allI impI)
    fix j assume j: "j < length locs"
    then have "\<not> overlap p (locs ! j)" using far by simp
    then have "subtree m1 (locs ! j) = subtree m (locs ! j)"
      using m1 by (rule subtree_replace_at_other)
    moreover have "\<exists>t. subtree m ((p # locs) ! Suc j) = Some t \<and> rs ! Suc j = IntermediateWrapper (cs ! Suc j) t"
      using Cons.prems(4) [rule_format, of "Suc j"] j by simp
    ultimately show "\<exists>t. subtree m1 (locs ! j) = Some t \<and> rs' ! j = IntermediateWrapper (cs' ! j) t"
      using rs cs by simp
  qed
  have "mset (wrapper_cells m') = mset (wrapper_cells m1) + mset cs'"
    using sep _ _ each rest by (rule Cons.IH) (use Cons.prems(2,3) rs cs in simp_all)
  then show ?case
    using step cs by simp
qed

lemma mset_cells_scan:
  "mset (concat (map (\<lambda>j. wrapper_cells (if P j then IntermediateWrapper (A j) (f j) else f j)) xs))
     = mset (concat (map (\<lambda>j. wrapper_cells (f j)) xs)) + mset (map A (filter P xs))"
  by (induction xs) simp_all

lemma scan_cells:
  "map (\<lambda>j. n + length (filter P [0..<j])) (filter P [0..<m]) = [n..<n + length (filter P [0..<m])]"
proof (rule nth_equalityI)
  show "length (map (\<lambda>j. n + length (filter P [0..<j])) (filter P [0..<m]))
      = length [n..<n + length (filter P [0..<m])]"
    by simp
next
  fix i assume "i < length (map (\<lambda>j. n + length (filter P [0..<j])) (filter P [0..<m]))"
  then have i: "i < length (filter P [0..<m])" by simp
  have "length (filter P [0..<filter P [0..<m] ! i]) = i"
    using i by (rule count_before_selected)
  then show "map (\<lambda>j. n + length (filter P [0..<j])) (filter P [0..<m]) ! i
      = [n..<n + length (filter P [0..<m])] ! i"
    using i by simp
qed

lemma getter_wrapper_cells:
  fixes md :: "('v, 'k, 'e) module"
  assumes "intermediate_layer_getter md S h = (Inr g, h')"
  shows "\<exists>n \<le> length (auxs g).
           mset (wrapper_cells (model g)) = mset (wrapper_cells md) + mset (take n (auxs g))"
proof (cases "\<exists>layers. md = Sequential layers")
  case True
  then obtain layers where md: "md = Sequential layers" by blast
  let ?P = "\<lambda>j. Position (int j) \<in> set (S md)"
  let ?L = "length (scan_order (S md) (length layers))"
  have m: "model g = Sequential (map (\<lambda>j. if ?P j
             then IntermediateWrapper (length h + length (filter ?P [0..<j])) (layers ! j)
             else layers ! j) [0..<length layers])"
    using getter_sequential [OF assms [unfolded md]] md by (simp add: scan_order_def)
  have "mset (wrapper_cells (model g))
      = mset (concat (map (\<lambda>j. wrapper_cells (layers ! j)) [0..<length layers]))
        + mset (map (\<lambda>j. length h + length (filter ?P [0..<j])) (filter ?P [0..<length layers]))"
    unfolding m by (simp add: comp_def mset_cells_scan)
  also have "map (\<lambda>j. wrapper_cells (layers ! j)) [0..<length layers] = map wrapper_cells layers"
    by (rule nth_equalityI) auto
  also have "map (\<lambda>j. length h + length (filter ?P [0..<j])) (filter ?P [0..<length layers])
      = [length h..<length h + ?L]"
    unfolding scan_order_def by (rule scan_cells)
  finally have eq: "mset (wrapper_cells (model g)) = mset (wrapper_cells md) + mset [length h..<length h + ?L]"
    using md by simp
  have le: "?L \<le> length (S md)" by (rule scan_order_le)
  have "take ?L (auxs g) = [length h..<length h + ?L]"
    unfolding getter_cells(1) [OF assms] using le by (simp add: take_upt)
  then show ?thesis
    using eq le getter_cells(1) [OF assms] by (intro exI [of _ ?L]) simp
next
  case False
  let ?n = "length h"
  from assms obtain tls :: "('v, 'k, 'e) target_layer list" where
    rd: "read_targets md (S md) = Inr tls" and
    au: "auxs g = [?n..<?n + length tls]" and
    br: "(case md of
        Sequential layers \<Rightarrow>
          sequential_branch layers tls (map IntermediateWrapper [?n..<?n + length tls])
      | _ \<Rightarrow> tree_at_branch md tls (map IntermediateWrapper [?n..<?n + length tls]))
     = Inr (model g)"
    by (rule getter_success) blast
  let ?ws = "map IntermediateWrapper [?n..<?n + length tls] :: (('v, 'k, 'e) module \<Rightarrow> ('v, 'k, 'e) module) list"
  have ok: "tree_at_branch md tls ?ws = Inr (model g)"
    using br False by (cases md) simp_all
  have len: "length ?ws = length tls" by simp
  from read_targets_reads [OF rd] len ok obtain locs replace where
    ts: "S md = map Location locs" and
    ll: "length replace = length locs" and sep: "separate locs" and
    ra: "replace_all md (zip locs replace) = Inr (model g)" and
    each: "\<forall>j<length locs. \<exists>t. subtree md (locs ! j) = Some t \<and> tls ! j = Node (locs ! j) t
        \<and> replace ! j = (?ws ! j) t"
    by (rule tree_at_branch_success)
  have lt: "length locs = length tls"
    using list_all2_lengthD [OF read_targets_reads [OF rd]] ts by simp
  have la: "length (auxs g) = length locs"
    using au lt by simp
  have each': "\<forall>j<length locs. \<exists>t. subtree md (locs ! j) = Some t
        \<and> replace ! j = IntermediateWrapper (auxs g ! j) t"
  proof (intro allI impI)
    fix j assume j: "j < length locs"
    then have "?ws ! j = IntermediateWrapper (auxs g ! j)"
      using lt au by simp
    then show "\<exists>t. subtree md (locs ! j) = Some t \<and> replace ! j = IntermediateWrapper (auxs g ! j) t"
      using each j by fastforce
  qed
  have "mset (wrapper_cells (model g)) = mset (wrapper_cells md) + mset (auxs g)"
    using sep ll la each' ra by (rule mset_cells_replace_all)
  then show ?thesis
    by (intro exI [of _ "length (auxs g)"]) simp
qed

lemma getter_cell_once:
  fixes md :: "('v, 'k, 'e) module"
  assumes "intermediate_layer_getter md S h = (Inr g, h')" and "cells_below (length h) md"
    and "aux \<in> set (auxs g)"
  shows "count_list (wrapper_cells (model g)) aux \<le> 1"
proof -
  obtain n where n: "n \<le> length (auxs g)"
    and eq: "mset (wrapper_cells (model g)) = mset (wrapper_cells md) + mset (take n (auxs g))"
    using getter_wrapper_cells [OF assms(1)] by blast
  have "length h \<le> aux"
    using assms(3) getter_cells(1) [OF assms(1)] by simp
  then have "aux \<notin> set (wrapper_cells md)"
    using wrapper_cells_below [OF assms(2), of aux] by auto
  then have old: "count (mset (wrapper_cells md)) aux = 0"
    by (simp add: count_eq_zero_iff)
  have "distinct (take n (auxs g))"
    using getter_cells(1) [OF assms(1)] by simp
  then have new: "count (mset (take n (auxs g))) aux \<le> 1"
    by (simp add: distinct_count_atmost_1)
  have "count_list (wrapper_cells (model g)) aux = count (mset (wrapper_cells (model g))) aux"
    by (rule count_mset [symmetric])
  then show ?thesis
    unfolding eq using old new by simp
qed

text \<open>Whenever construction succeeds, a call returns one capture per target.\<close>

lemma capture_count:
  fixes md :: "('v, 'k, 'e) module"
  assumes "intermediate_layer_getter md S h = (Inr g, h')"
    and "getter_call split g x key h1 = (Inr (out, caps), h2)"
  shows "length caps = length (S md) \<and> 0 < length (S md)"
  using getter_call_captures(2) [OF assms(2)] getter_cells(1,3) [OF assms(1)] by simp

text \<open>The definitions that evaluating an example unfolds.\<close>

lemmas ex_defs = ex_layers_def ex_split_def ex_forward_def ex_tree_def

lemmas run_defs = intermediate_layer_getter_def make_intermediate_layer_wrapper_def unpack_zip_def
  sequential_branch_def tree_at_branch_def tree_at_def getter_call_def split_keys_def update_def
  AuxData_init_def writes_to_def scan_order_def

section \<open>The claims\<close>



text \<open>
  Claim C2 (capture count, the case of no target). When the selector returns no target,
  \<^verbatim>\<open>zip(*[])\<close> yields nothing and the assignment \<^verbatim>\<open>auxs, wrappers = ...\<close> raises
  \<^verbatim>\<open>ValueError\<close>: construction fails, for every model and heap, and the heap is as it
  was.
\<close>

theorem empty_selection_raises:
  "intermediate_layer_getter md (\<lambda>m. []) h = (Inl ValueError, h)"
  by (simp add: intermediate_layer_getter_def unpack_zip_def)




text \<open>
  Claim C4 (last write wins). \<open>update\<close> stores its argument whatever the cell held; and
  when the wrapper of the \<open>j\<close>-th cell returned one or more times during a forward
  pass, the \<open>j\<close>-th capture is the output of its last invocation.
\<close>

theorem last_write_wins:
  assumes "getter_call split g x key h = (Inr (out, caps), h')"
    and "j < length (auxs g)" and "auxs g ! j < length h"
    and "writes_to (auxs g ! j) (snd (trace split (model g) x key)) \<noteq> []"
  shows "data (update cell v) = Some v
       \<and> caps ! j = Some (last (writes_to (auxs g ! j) (snd (trace split (model g) x key))))"
proof -
  have "caps ! j = data (h' ! (auxs g ! j))"
    using getter_call_captures(2) [OF assms(1)] assms(2) by simp
  also have "\<dots> = data (write_all (snd (trace split (model g) x key)) h ! (auxs g ! j))"
    using getter_call_captures(1) [OF assms(1)] by simp
  also have "\<dots> = Some (last (writes_to (auxs g ! j) (snd (trace split (model g) x key))))"
    using assms(3,4) by (rule write_all_last)
  finally show ?thesis by (simp add: update_def)
qed

theorem last_write_wins_witness:
  "getter_call ex_split ex_tree_getter 1 None [AuxData_init] = (Inr (16, [Some 16]), [\<lparr>data = Some 16\<rparr>])
   \<and> 0 < length (auxs ex_tree_getter)
   \<and> auxs ex_tree_getter ! 0 < length [AuxData_init :: nat AuxData]
   \<and> writes_to (auxs ex_tree_getter ! 0) (snd (trace ex_split (model ex_tree_getter) 1 None)) = [15, 16]
   \<and> data (update (AuxData_init :: nat AuxData) 5) = Some 5
   \<and> [Some 16] ! 0 = Some (last (writes_to (auxs ex_tree_getter ! 0)
                                   (snd (trace ex_split (model ex_tree_getter) 1 None))))"
proof -
  have a: "getter_call ex_split ex_tree_getter 1 None [AuxData_init]
             = (Inr (16, [Some 16]), [\<lparr>data = Some 16\<rparr>])"
    by (simp add: ex_defs ex_tree_getter_def run_defs)
  have b: "0 < length (auxs ex_tree_getter)"
    by (simp add: ex_tree_getter_def)
  have c: "auxs ex_tree_getter ! 0 < length [AuxData_init :: nat AuxData]"
    by (simp add: ex_tree_getter_def)
  have d: "writes_to (auxs ex_tree_getter ! 0) (snd (trace ex_split (model ex_tree_getter) 1 None)) = [15, 16]"
    by (simp add: ex_defs ex_tree_getter_def run_defs)
  then have d': "writes_to (auxs ex_tree_getter ! 0) (snd (trace ex_split (model ex_tree_getter) 1 None)) \<noteq> []"
    by simp
  note t = last_write_wins [OF a b c d', where cell = "AuxData_init :: nat AuxData" and v = 5]
  show ?thesis
    using a b c d t by blast
qed

text \<open>
  Claim C5 (capture content). When the wrapper of the \<open>j\<close>-th cell returned exactly once
  during a forward pass, with the output \<open>v\<close> of its layer, the \<open>j\<close>-th capture is
  \<open>v\<close>. A wrapper whose layer returns \<open>y\<close> on the given input and key returns \<open>y\<close>,
  leaves \<open>y\<close> in its cell and leaves every other cell as the layer left it.
\<close>

theorem capture_content:
  assumes "getter_call split g x key h = (Inr (out, caps), h')"
    and "j < length (auxs g)" and "auxs g ! j < length h"
    and "writes_to (auxs g ! j) (snd (trace split (model g) x key)) = [v]"
  shows "caps ! j = Some v
       \<and> (call split layer x0 key0 h0 = (Inr y, h1) \<longrightarrow> aux < length h0 \<longrightarrow>
            (\<exists>h2. call split (IntermediateWrapper aux layer) x0 key0 h0 = (Inr y, h2)
               \<and> data (h2 ! aux) = Some y \<and> (\<forall>c. c \<noteq> aux \<longrightarrow> h2 ! c = h1 ! c)))"
proof -
  have ne: "writes_to (auxs g ! j) (snd (trace split (model g) x key)) \<noteq> []"
    using assms(4) by simp
  have "caps ! j = data (h' ! (auxs g ! j))"
    using getter_call_captures(2) [OF assms(1)] assms(2) by simp
  also have "\<dots> = data (write_all (snd (trace split (model g) x key)) h ! (auxs g ! j))"
    using getter_call_captures(1) [OF assms(1)] by simp
  also have "\<dots> = Some (last (writes_to (auxs g ! j) (snd (trace split (model g) x key))))"
    using assms(3) ne by (rule write_all_last)
  finally have "caps ! j = Some v" using assms(4) by simp
  then show ?thesis
    using wrapper_call [of split layer x0 key0 h0 y h1 aux] by blast
qed

theorem capture_content_witness:
  "getter_call ex_split ex_flat_getter 1 (Some 3) [AuxData_init, AuxData_init]
     = (Inr (12, [Some 2, Some 12]), [\<lparr>data = Some 2\<rparr>, \<lparr>data = Some 12\<rparr>])
   \<and> 1 < length (auxs ex_flat_getter)
   \<and> auxs ex_flat_getter ! 1 < length [AuxData_init :: nat AuxData, AuxData_init]
   \<and> writes_to (auxs ex_flat_getter ! 1) (snd (trace ex_split (model ex_flat_getter) 1 (Some 3))) = [12]
   \<and> [Some 2, Some 12] ! 1 = Some (12 :: nat)
   \<and> call ex_split (ex_layers ! 2) 4 (Some 8) [AuxData_init, AuxData_init]
        = (Inr 12, [AuxData_init, AuxData_init])
   \<and> (\<exists>h2. call ex_split (IntermediateWrapper 1 (ex_layers ! 2)) 4 (Some 8) [AuxData_init, AuxData_init]
               = (Inr 12, h2)
           \<and> data (h2 ! 1) = Some 12 \<and> (\<forall>c. c \<noteq> 1 \<longrightarrow> h2 ! c = [AuxData_init, AuxData_init] ! c))"
proof -
  have a: "getter_call ex_split ex_flat_getter 1 (Some 3) [AuxData_init, AuxData_init]
     = (Inr (12, [Some 2, Some 12]), [\<lparr>data = Some 2\<rparr>, \<lparr>data = Some 12\<rparr>])"
    by (simp add: ex_defs ex_flat_getter_def run_defs)
  have b: "1 < length (auxs ex_flat_getter)"
    by (simp add: ex_flat_getter_def)
  have c: "auxs ex_flat_getter ! 1 < length [AuxData_init :: nat AuxData, AuxData_init]"
    by (simp add: ex_flat_getter_def)
  have d: "writes_to (auxs ex_flat_getter ! 1) (snd (trace ex_split (model ex_flat_getter) 1 (Some 3))) = [12]"
    by (simp add: ex_defs ex_flat_getter_def run_defs)
  have e: "call ex_split (ex_layers ! 2) 4 (Some 8) [AuxData_init, AuxData_init]
        = (Inr 12, [AuxData_init, AuxData_init])"
    by (simp add: ex_defs ex_flat_getter_def)
  have f: "1 < length [AuxData_init :: nat AuxData, AuxData_init]"
    by simp
  note t = capture_content [OF a b c d, where layer = "ex_layers ! 2"
      and ?x0.0 = 4 and ?key0.0 = "Some 8" and ?h0.0 = "[AuxData_init, AuxData_init]"
      and y = 12 and ?h1.0 = "[AuxData_init, AuxData_init]" and aux = 1]
  show ?thesis
    using a b c d e f t by blast
qed

text \<open>
  Claim C6 (positional and general branch agree), as amended. For a pipeline and
  positions that are in range and listed in strictly ascending order, the positional
  branch on the positions and the general branch on the locations \<^verbatim>\<open>m.layers[i]\<close>, listed
  in the same order and given the same wrappers, both succeed and build the same model;
  so one call of the aggregator gives the same output and the same captures.
\<close>

theorem flat_general_agree:
  fixes layers :: "('v, 'k, 'e) module list"
  assumes "sorted_wrt (<) idxs" and "\<forall>i \<in> set idxs. i < length layers" and "length ws = length idxs"
    and "read_targets (Sequential layers) (map (\<lambda>i. Position (int i)) idxs) = Inr positional"
    and "read_targets (Sequential layers) (map (\<lambda>i. Location [i]) idxs) = Inr located"
  shows "(\<exists>md'. sequential_branch layers positional ws = Inr md'
              \<and> tree_at_branch (Sequential layers) located ws = Inr md')
       \<and> branch_call split (sequential_branch layers positional ws) cells x key h
         = branch_call split (tree_at_branch (Sequential layers) located ws) cells x key h"
proof -
  let ?tls = "map (\<lambda>i. Index (int i)) idxs :: ('v, 'k, 'e) target_layer list"
  let ?rs = "map (\<lambda>(w, i). w (layers ! i)) (zip ws idxs)"
  let ?c = "\<lambda>j. length (filter (selected ?tls) [0..<j])"
  let ?flat = "map (\<lambda>j. if selected ?tls j then (ws ! ?c j) (layers ! j) else layers ! j)
                 [0..<length layers]"
  let ?gen = "fold (\<lambda>(i, r) l. l[i := r]) (zip idxs ?rs) layers"
  have d: "distinct idxs"
    using assms(1) by (simp add: strict_sorted_iff)
  have p: "positional = ?tls"
    using assms(4) by (simp add: read_positions)
  have q: "located = map (\<lambda>i. Node [i] (layers ! i)) idxs"
    using assms(5) read_locations [OF assms(2)] by simp
  have sel: "selected ?tls = (\<lambda>j. j \<in> set idxs)"
    by (rule ext) (auto simp: selected_def)
  have f: "sequential_branch layers positional ws = Inr (Sequential ?flat)"
    unfolding p using assms(3) by (intro sequential_branch_eq) simp
  have g: "tree_at_branch (Sequential layers) located ws = Inr (Sequential ?gen)"
    unfolding q using d assms(2,3) by (rule tree_at_branch_flat)
  have lz: "length (zip idxs ?rs) = length idxs"
    using assms(3) by simp
  have "?flat = ?gen"
  proof (rule nth_equalityI)
    show "length ?flat = length ?gen" by simp
  next
    fix j assume "j < length ?flat"
    then have j: "j < length layers" by simp
    show "?flat ! j = ?gen ! j"
    proof (cases "j \<in> set idxs")
      case True
      then obtain k where k: "k < length idxs" and jk: "idxs ! k = j"
        by (auto simp: in_set_conv_nth)
      have cnt: "?c j = k"
        unfolding sel using sorted_count [OF assms(1) k] jk by simp
      have "fst (zip idxs ?rs ! k) = j" and "snd (zip idxs ?rs ! k) = (ws ! k) (layers ! j)"
        using k jk assms(3) by simp_all
      moreover have "?gen ! (fst (zip idxs ?rs ! k)) = snd (zip idxs ?rs ! k)"
        using d k j jk assms(3) by (intro fold_update_same) simp_all
      ultimately have "?gen ! j = (ws ! k) (layers ! j)"
        by simp
      moreover have "?flat ! j = (ws ! k) (layers ! j)"
        using j True cnt sel by simp
      ultimately show ?thesis by simp
    next
      case False
      then have "j \<notin> fst ` set (zip idxs ?rs)"
        by (auto dest: set_zip_leftD)
      then have "?gen ! j = layers ! j"
        by (rule fold_update_other)
      moreover have "?flat ! j = layers ! j"
        using j False sel by simp
      ultimately show ?thesis by simp
    qed
  qed
  then show ?thesis
    using f g by simp
qed

theorem flat_general_agree_witness:
  "sorted_wrt (<) [0, 2 :: nat]
   \<and> 0 < length ex_layers \<and> 2 < length ex_layers
   \<and> length [IntermediateWrapper 0, IntermediateWrapper 1 :: (nat, nat, string) module \<Rightarrow> (nat, nat, string) module]
       = length [0, 2 :: nat]
   \<and> read_targets (Sequential ex_layers) (map (\<lambda>i. Position (int i)) [0, 2]) = Inr [Index 0, Index 2]
   \<and> read_targets (Sequential ex_layers) (map (\<lambda>i. Location [i]) [0, 2])
       = Inr [Node [0] (ex_layers ! 0), Node [2] (ex_layers ! 2)]
   \<and> (\<exists>md'. sequential_branch ex_layers [Index 0, Index 2] [IntermediateWrapper 0, IntermediateWrapper 1] = Inr md'
          \<and> tree_at_branch (Sequential ex_layers) [Node [0] (ex_layers ! 0), Node [2] (ex_layers ! 2)]
               [IntermediateWrapper 0, IntermediateWrapper 1] = Inr md')
   \<and> branch_call ex_split
        (sequential_branch ex_layers [Index 0, Index 2] [IntermediateWrapper 0, IntermediateWrapper 1])
        [0, 1] 1 None [AuxData_init, AuxData_init]
     = branch_call ex_split
        (tree_at_branch (Sequential ex_layers) [Node [0] (ex_layers ! 0), Node [2] (ex_layers ! 2)]
           [IntermediateWrapper 0, IntermediateWrapper 1])
        [0, 1] 1 None [AuxData_init, AuxData_init]"
proof -
  have a: "sorted_wrt (<) [0, 2 :: nat]"
    by simp
  have b: "\<forall>i \<in> set [0, 2]. i < length ex_layers"
    by (simp add: ex_layers_def)
  then have b0: "0 < length ex_layers" and b2: "2 < length ex_layers"
    by simp_all
  have c: "length [IntermediateWrapper 0, IntermediateWrapper 1 :: (nat, nat, string) module \<Rightarrow> (nat, nat, string) module]
       = length [0, 2 :: nat]"
    by simp
  have d: "read_targets (Sequential ex_layers) (map (\<lambda>i. Position (int i)) [0, 2]) = Inr [Index 0, Index 2]"
    by simp
  have e: "read_targets (Sequential ex_layers) (map (\<lambda>i. Location [i]) [0, 2])
       = Inr [Node [0] (ex_layers ! 0), Node [2] (ex_layers ! 2)]"
    by (simp add: ex_layers_def)
  note t = flat_general_agree [OF a b c d e, where split = ex_split and cells = "[0, 1]" and x = 1
      and key = None and h = "[AuxData_init, AuxData_init]"]
  show ?thesis
    using a b0 b2 c d e t by blast
qed

text \<open>
  The claim as stated fails when the selector lists the positions in another order: for
  the positions 2 and 0 the positional branch captures the outputs of layer 0 and
  layer 2 in this order, the general branch those of layer 2 and layer 0.
\<close>

theorem flat_general_agree_counterexample:
  "read_targets (Sequential ex_layers) [Position 2, Position 0] = Inr [Index 2, Index 0]
   \<and> read_targets (Sequential ex_layers) [Location [2], Location [0]]
       = Inr [Node [2] (ex_layers ! 2), Node [0] (ex_layers ! 0)]
   \<and> captures_of (branch_call ex_split
       (sequential_branch ex_layers [Index 2, Index 0] [IntermediateWrapper 0, IntermediateWrapper 1])
       [0, 1] 1 None [AuxData_init, AuxData_init])
     = Some [Some 2, Some 14]
   \<and> captures_of (branch_call ex_split
       (tree_at_branch (Sequential ex_layers) [Node [2] (ex_layers ! 2), Node [0] (ex_layers ! 0)]
          [IntermediateWrapper 0, IntermediateWrapper 1])
       [0, 1] 1 None [AuxData_init, AuxData_init])
     = Some [Some 14, Some 2]"
  by (simp add: captures_of_def branch_call_def ex_defs run_defs overlap_def)

text \<open>
  Claim C7 (error propagation). A wrapper whose layer raises returns that error and the
  heap that the layer left; the aggregator returns the error of its model and the heap
  that the model left; and the instrumented model raises \<open>e\<close> exactly when the original
  model raises \<open>e\<close> on the same input and key.
\<close>

theorem error_propagation:
  assumes "intermediate_layer_getter md S h = (Inr g, h')"
  shows "(call split layer x key h1 = (Inl e, h2) \<longrightarrow>
            call split (IntermediateWrapper aux layer) x key h1 = (Inl e, h2))
       \<and> (call split (model g) x key h1 = (Inl e, h2) \<longrightarrow>
            getter_call split g x key h1 = (Inl e, h2))
       \<and> ((fst (getter_call split g x key h1) = Inl e) = (fst (call split md x key h0) = Inl e))"
proof -
  have "map_sum id fst (fst (getter_call split g x key h1)) = fst (call split md x key h0)"
    using assms by (rule getter_output)
  then have "(fst (getter_call split g x key h1) = Inl e) = (fst (call split md x key h0) = Inl e)"
    by (cases "fst (getter_call split g x key h1)") auto
  then show ?thesis
    by (simp add: getter_call_def)
qed

theorem error_propagation_witness:
  "intermediate_layer_getter (Sequential ex_layers) (\<lambda>m. [Position 1]) [] =
     (Inr \<lparr>model = Sequential [ex_layers ! 0, IntermediateWrapper 0 (ex_layers ! 1), ex_layers ! 2],
           auxs = [0]\<rparr>, [AuxData_init])
   \<and> call ex_split (ex_layers ! 1) 200 None [AuxData_init] = (Inl (Raised ''overflow''), [AuxData_init])
   \<and> call ex_split (IntermediateWrapper 0 (ex_layers ! 1)) 200 None [AuxData_init]
       = (Inl (Raised ''overflow''), [AuxData_init])
   \<and> getter_call ex_split
        \<lparr>model = Sequential [ex_layers ! 0, IntermediateWrapper 0 (ex_layers ! 1), ex_layers ! 2],
         auxs = [0]\<rparr> 200 None [AuxData_init] = (Inl (Raised ''overflow''), [AuxData_init])
   \<and> fst (call ex_split (Sequential ex_layers) 200 None []) = Inl (Raised ''overflow'')"
proof -
  let ?g = "\<lparr>model = Sequential [ex_layers ! 0, IntermediateWrapper 0 (ex_layers ! 1), ex_layers ! 2],
             auxs = [0]\<rparr>"
  have c: "intermediate_layer_getter (Sequential ex_layers) (\<lambda>m. [Position 1]) [] =
     (Inr ?g, [AuxData_init])"
    by (simp add: intermediate_layer_getter_def ex_layers_def make_intermediate_layer_wrapper_def
        unpack_zip_def sequential_branch_def)
  have l: "call ex_split (ex_layers ! 1) 200 None [AuxData_init] = (Inl (Raised ''overflow''), [AuxData_init])"
    by (simp add: ex_layers_def)
  have m: "call ex_split (model ?g) 200 None [AuxData_init] = (Inl (Raised ''overflow''), [AuxData_init])"
    by (simp add: ex_layers_def split_keys_def)
  note t = error_propagation [OF c, of ex_split "ex_layers ! 1" 200 None "[AuxData_init]"
        "Raised ''overflow''" "[AuxData_init]" 0 "[]"]
  have w: "call ex_split (IntermediateWrapper 0 (ex_layers ! 1)) 200 None [AuxData_init]
       = (Inl (Raised ''overflow''), [AuxData_init])"
    using t l by blast
  have a: "getter_call ex_split ?g 200 None [AuxData_init] = (Inl (Raised ''overflow''), [AuxData_init])"
    using t m by blast
  have "fst (getter_call ex_split ?g 200 None [AuxData_init]) = Inl (Raised ''overflow'')"
    unfolding a by simp
  then have e: "fst (call ex_split (Sequential ex_layers) 200 None []) = Inl (Raised ''overflow'')"
    using t by blast
  show ?thesis
    using c l w a e by blast
qed




text \<open>
  Claim C9 (a cell never written holds \<open>None\<close>). Construction leaves \<open>None\<close> in every
  new cell. A forward pass changes the heap by the writes of the wrappers invoked and by
  nothing else: every write goes to the cell of a wrapper of the model, and at most one
  wrapper of the constructed model is bound to a new cell (given that the model passed
  in refers to cells of the heap at hand only). So after any number of calls none of
  which invoked the wrapper of the \<open>j\<close>-th cell, the \<open>j\<close>-th capture of a further such
  call is \<open>None\<close>.
\<close>

theorem never_invoked_none:
  fixes md :: "('v, 'k, 'e) module"
  assumes "intermediate_layer_getter md S h = (Inr g, h0)"
    and "j < length (auxs g)"
    and "\<forall>c \<in> set calls. writes_to (auxs g ! j) (snd (trace split (model g) (fst c) (snd c))) = []"
    and "writes_to (auxs g ! j) (snd (trace split (model g) x key)) = []"
    and "getter_call split g x key (earlier_calls split g calls h0) = (Inr (out, caps), h1)"
  shows "data (h0 ! (auxs g ! j)) = None \<and> caps ! j = None
       \<and> fst ` set (snd (trace split (model g) x key)) \<subseteq> set (wrapper_cells (model g))
       \<and> (cells_below (length h) md \<longrightarrow> count_list (wrapper_cells (model g)) (auxs g ! j) \<le> 1)"
proof -
  let ?a = "auxs g ! j"
  from assms(1) obtain tls :: "('v, 'k, 'e) target_layer list" where
    h0: "h0 = h @ replicate (length tls) AuxData_init" and
    au: "auxs g = [length h..<length h + length tls]"
    by (rule getter_success) blast
  have init: "data (h0 ! ?a) = None"
    using assms(2) unfolding h0 au by (simp add: nth_append AuxData_init_def)
  have "caps ! j = data (h1 ! ?a)"
    using getter_call_captures(2) [OF assms(5)] assms(2) by simp
  also have "h1 ! ?a = earlier_calls split g calls h0 ! ?a"
    unfolding getter_call_captures(1) [OF assms(5)] using assms(4) by (rule write_all_frame)
  also have "\<dots> = h0 ! ?a"
    using assms(3) by (rule earlier_calls_frame)
  finally have none: "caps ! j = None" using init by simp
  have once: "cells_below (length h) md \<longrightarrow> count_list (wrapper_cells (model g)) ?a \<le> 1"
    using getter_cell_once [OF assms(1)] assms(2) by simp
  show ?thesis
    using init none once trace_cells [of split "model g" x key] by simp
qed

theorem never_invoked_none_witness:
  "intermediate_layer_getter (Sequential ex_layers) ex_select_0_0 []
     = (Inr ex_dup_getter, [AuxData_init, AuxData_init])
   \<and> 1 < length (auxs ex_dup_getter)
   \<and> writes_to (auxs ex_dup_getter ! 1) (snd (trace ex_split (model ex_dup_getter) 1 None)) = []
   \<and> writes_to (auxs ex_dup_getter ! 1) (snd (trace ex_split (model ex_dup_getter) 2 (Some 3))) = []
   \<and> getter_call ex_split ex_dup_getter 2 (Some 3)
        (earlier_calls ex_split ex_dup_getter [(1, None)] [AuxData_init, AuxData_init])
       = (Inr (14, [Some 3, None]), [\<lparr>data = Some 3\<rparr>, AuxData_init])
   \<and> data ([AuxData_init, AuxData_init :: nat AuxData] ! (auxs ex_dup_getter ! 1)) = None
   \<and> [Some 3, None :: nat option] ! 1 = None
   \<and> cells_below (length ([] :: nat AuxData list)) (Sequential ex_layers)
   \<and> count_list (wrapper_cells (model ex_dup_getter)) (auxs ex_dup_getter ! 1) \<le> 1"
proof -
  have a: "intermediate_layer_getter (Sequential ex_layers) ex_select_0_0 []
     = (Inr ex_dup_getter, [AuxData_init, AuxData_init])"
    by (simp add: ex_defs ex_dup_getter_def ex_select_0_0_def run_defs)
  have b: "1 < length (auxs ex_dup_getter)"
    by (simp add: ex_dup_getter_def)
  have c: "\<forall>c \<in> set [(1, None)].
         writes_to (auxs ex_dup_getter ! 1) (snd (trace ex_split (model ex_dup_getter) (fst c) (snd c))) = []"
    by (simp add: ex_defs ex_dup_getter_def ex_select_0_0_def run_defs)
  have d: "writes_to (auxs ex_dup_getter ! 1) (snd (trace ex_split (model ex_dup_getter) 2 (Some 3))) = []"
    by (simp add: ex_defs ex_dup_getter_def ex_select_0_0_def run_defs)
  have e: "getter_call ex_split ex_dup_getter 2 (Some 3)
        (earlier_calls ex_split ex_dup_getter [(1, None)] [AuxData_init, AuxData_init])
       = (Inr (14, [Some 3, None]), [\<lparr>data = Some 3\<rparr>, AuxData_init])"
    by (simp add: ex_defs ex_dup_getter_def ex_select_0_0_def run_defs)
  have c': "writes_to (auxs ex_dup_getter ! 1) (snd (trace ex_split (model ex_dup_getter) 1 None)) = []"
    using c by simp
  have f: "cells_below (length ([] :: nat AuxData list)) (Sequential ex_layers)"
    by (simp add: ex_defs ex_dup_getter_def ex_select_0_0_def)
  note t = never_invoked_none [OF a b c d e]
  show ?thesis
    using a b c' d e f t by blast
qed



end
